theory Spec2Isabelle
  imports
    Complex_Main
    "HOL-Library.Word"
    "HOL-Library.Multiset"
    "HOL-Library.Product_Lexorder"
begin

section \<open>Data model\<close>

text \<open>
  The grid heat map of the client (component \<open>GridMap\<close>): the points of the table
  \<open>arrow_table\<close> are binned by a query into a grid of \<open>W * H\<close> cells, counted per cell and
  category, and every cell is coloured by mixing a palette and shading by density.

  A JavaScript number is a \<open>real\<close> that binary64 represents, and every arithmetic operation
  of the component rounds its exact result to the nearest such number (\<open>rnd64\<close>). The
  arithmetic of the query engine, which is not part of the repository, is a parameter
  (\<open>engine\<close>). Counts are natural numbers; the two \<open>Uint32Array\<close>s hold \<open>32 word\<close>s. The
  grid size and the palette, constants of the component (32, 32 and \<open>PALETTE\<close>), are
  parameters of the model; the stride 4 of the counter array is the literal of the source.

  The model is one run of the effect of the component with the connection ready and the
  data loaded (the effect returns at once otherwise); the columns hold no NULL, and a query
  that fails is outside the model. The array of colours is first filled with
  \<open>rgba(0,0,0,0)\<close>; the loop over the cells then writes every entry, so the fill does not
  show in the result.
\<close>

type_synonym RGB = "int \<times> int \<times> int"

definition PALETTE :: "RGB list" where
  "PALETTE = [(230, 57, 70), (29, 53, 87), (69, 123, 157), (241, 196, 15)]"

text \<open>A row of \<open>arrow_table\<close>: two coordinates and a category (a \<open>Uint8Array\<close> column).\<close>

record point =
  umap_x :: real
  umap_y :: real
  cat_id :: nat

text \<open>The row of the extent query.\<close>

record bounds =
  xmin :: real
  xmax :: real
  ymin :: real
  ymax :: real

text \<open>A row of the binning query: \<open>ix, iy, cat_id, n, n_total\<close>.\<close>

record row =
  r_ix :: int
  r_iy :: int
  r_cat :: nat
  r_n :: nat
  r_ntot :: nat

text \<open>The per-cell totals, the per-cell per-category counters (stride 4) and \<open>maxTot\<close>.\<close>

record accum =
  totals :: "32 word list"
  counts :: "32 word list"
  maxTot :: nat

text \<open>
  An entry of the array of CSS colours: the string \<open>transparent\<close>, or the string
  \<open>rgb(r, g, b)\<close> that \<open>rgbToCss\<close> builds from three numbers.
\<close>

datatype css = Transparent | Rgb int int int

section \<open>JavaScript numbers\<close>

text \<open>Rounding to an integer, a tie going to the even one.\<close>

definition round_even :: "real \<Rightarrow> int" where
  "round_even y =
     (if y - of_int \<lfloor>y\<rfloor> < 1 / 2 then \<lfloor>y\<rfloor>
      else if 1 / 2 < y - of_int \<lfloor>y\<rfloor> then \<lfloor>y\<rfloor> + 1
      else if even \<lfloor>y\<rfloor> then \<lfloor>y\<rfloor> else \<lfloor>y\<rfloor> + 1)"

text \<open>
  The binary64 number nearest to \<open>x\<close>, a tie going to the even significand: \<open>x\<close> is scaled
  by a power of two to a significand of 53 bits, which is rounded. The exponent is not
  bounded: the numbers of the component (counts below \<open>2^32\<close>, channels, their quotients
  and products) are far from overflow and from the subnormal range.
\<close>

definition rnd64 :: "real \<Rightarrow> real" where
  "rnd64 x =
     (if x = 0 then 0
      else of_int (round_even (x / 2 powi (\<lfloor>log 2 \<bar>x\<bar>\<rfloor> - 52))) *
           2 powi (\<lfloor>log 2 \<bar>x\<bar>\<rfloor> - 52))"

text \<open>The operators \<open>+\<close>, \<open>*\<close>, \<open>/\<close> and \<open>Math.sqrt\<close> on numbers.\<close>

definition js_add :: "real \<Rightarrow> real \<Rightarrow> real" where
  "js_add a b = rnd64 (a + b)"

definition js_mul :: "real \<Rightarrow> real \<Rightarrow> real" where
  "js_mul a b = rnd64 (a * b)"

definition js_div :: "real \<Rightarrow> real \<Rightarrow> real" where
  "js_div a b = rnd64 (a / b)"

definition js_sqrt :: "real \<Rightarrow> real" where
  "js_sqrt a = rnd64 (sqrt a)"

text \<open>A sum accumulated from the left, starting from 0.\<close>

definition js_sum :: "real list \<Rightarrow> real" where
  "js_sum xs = foldl js_add 0 xs"

section \<open>The query engine\<close>

text \<open>
  The queries run in an engine outside the repository. The bounds reach the second query as
  decimal text spliced into the SQL, and the engine evaluates the expressions over them and
  the columns in its own number types. Its arithmetic is a parameter of the model:
  \<^item> \<open>e_scale lo hi n v\<close> is the engine's value of \<open>(v - lo) / NULLIF(hi - lo, 0) * n\<close> for a
    column value \<open>v\<close>, where the \<open>NULLIF\<close> is not NULL;
  \<^item> \<open>e_between lo hi v\<close> is the engine's \<open>v BETWEEN lo AND hi\<close>.
  The literals printed from two numbers are equal exactly when the numbers are, and are
  ordered as they are: \<open>NULLIF(hi - lo, 0)\<close> is NULL exactly when \<open>hi = lo\<close>, and
  \<open>hi > lo\<close> is the order of the numbers.
\<close>

record engine =
  e_scale :: "real \<Rightarrow> real \<Rightarrow> nat \<Rightarrow> real \<Rightarrow> real"
  e_between :: "real \<Rightarrow> real \<Rightarrow> real \<Rightarrow> bool"

text \<open>
  An engine of exact arithmetic. On operands and results that the number types of an engine
  represent, as the small integers of the scenarios below, every engine computes these
  values.
\<close>

definition exact_engine :: engine where
  "exact_engine =
     \<lparr>e_scale = (\<lambda>lo hi n v. (v - lo) / (hi - lo) * real n),
      e_between = (\<lambda>lo hi v. lo \<le> v \<and> v \<le> hi)\<rparr>"

section \<open>The extent query\<close>

text \<open>
  \<open>SELECT MIN(umap_x), MAX(umap_x), MIN(umap_y), MAX(umap_y) FROM arrow_table\<close>:
  over an empty table all four aggregates are NULL (\<open>None\<close>).
\<close>

definition extent_query :: "point list \<Rightarrow> bounds option" where
  "extent_query tbl =
     (case tbl of
        [] \<Rightarrow> None
      | p # ps \<Rightarrow>
          Some \<lparr>xmin = fold min (map umap_x ps) (umap_x p),
                xmax = fold max (map umap_x ps) (umap_x p),
                ymin = fold min (map umap_y ps) (umap_y p),
                ymax = fold max (map umap_y ps) (umap_y p)\<rparr>)"

section \<open>The binning query\<close>

text \<open>\<open>NULLIF(d, 0)\<close>.\<close>

definition nullif_zero :: "real \<Rightarrow> real option" where
  "nullif_zero d = (if d = 0 then None else Some d)"

text \<open>
  \<open>CAST(FLOOR((v - lo) / NULLIF(hi - lo, 0) * n) AS INTEGER)\<close>: NULL when the \<open>NULLIF\<close>
  is, and else the floor of the value that the engine computes.
\<close>

definition bin_index :: "engine \<Rightarrow> real \<Rightarrow> real \<Rightarrow> nat \<Rightarrow> real \<Rightarrow> int option" where
  "bin_index E lo hi n v =
     map_option (\<lambda>d. \<lfloor>e_scale E lo hi n v\<rfloor>) (nullif_zero (hi - lo))"

text \<open>The \<open>WHERE\<close> clause of \<open>binned\<close>; NULL bounds select no row.\<close>

definition in_extent :: "engine \<Rightarrow> bounds \<Rightarrow> point \<Rightarrow> bool" where
  "in_extent E e p \<longleftrightarrow>
     xmax e > xmin e \<and> ymax e > ymin e \<and>
     e_between E (xmin e) (xmax e) (umap_x p) \<and>
     e_between E (ymin e) (ymax e) (umap_y p)"

definition bin_point ::
  "engine \<Rightarrow> nat \<Rightarrow> nat \<Rightarrow> bounds \<Rightarrow> point \<Rightarrow> int option \<times> int option \<times> nat" where
  "bin_point E W H e p =
     (bin_index E (xmin e) (xmax e) W (umap_x p),
      bin_index E (ymin e) (ymax e) H (umap_y p),
      cat_id p)"

definition binned ::
  "engine \<Rightarrow> nat \<Rightarrow> nat \<Rightarrow> bounds option \<Rightarrow> point list \<Rightarrow>
     (int option \<times> int option \<times> nat) list" where
  "binned E W H ext tbl =
     (case ext of
        None \<Rightarrow> []
      | Some e \<Rightarrow> map (bin_point E W H e) (filter (in_extent E e) tbl))"

text \<open>
  The \<open>WHERE\<close> clause of \<open>agg\<close>, \<open>ix BETWEEN 0 AND W - 1 AND iy BETWEEN 0 AND H - 1\<close>:
  the rows it keeps, as \<open>(ix, iy, cat_id)\<close>.
\<close>

fun grid_key :: "nat \<Rightarrow> nat \<Rightarrow> int option \<times> int option \<times> nat \<Rightarrow> (int \<times> int \<times> nat) option" where
  "grid_key W H (Some i, Some j, c) =
     (if 0 \<le> i \<and> i \<le> int W - 1 \<and> 0 \<le> j \<and> j \<le> int H - 1 then Some (i, j, c) else None)"
| "grid_key W H (None, j, c) = None"
| "grid_key W H (Some i, None, c) = None"

text \<open>\<open>GROUP BY 1,2,3\<close> with \<open>COUNT(*)\<close>: one row for each distinct key.\<close>

definition agg ::
  "nat \<Rightarrow> nat \<Rightarrow> (int option \<times> int option \<times> nat) list \<Rightarrow> ((int \<times> int \<times> nat) \<times> nat) list" where
  "agg W H bs =
     (let ks = List.map_filter (grid_key W H) bs
      in map (\<lambda>k. (k, count_list ks k)) (remdups ks))"

text \<open>
  The keys \<open>(ix, iy, cat_id)\<close> of the rows that the \<open>WHERE\<close> clause of \<open>agg\<close> keeps,
  before grouping.
\<close>

abbreviation agg_keys ::
  "engine \<Rightarrow> nat \<Rightarrow> nat \<Rightarrow> bounds option \<Rightarrow> point list \<Rightarrow> (int \<times> int \<times> nat) list" where
  "agg_keys E W H ext tbl \<equiv> List.map_filter (grid_key W H) (binned E W H ext tbl)"

text \<open>
  The key under which a row of the table is counted: the row passes the \<open>WHERE\<close> clause of
  \<open>binned\<close> and its indices pass that of \<open>agg\<close>. A row that the query drops has none.
\<close>

definition point_key ::
  "engine \<Rightarrow> nat \<Rightarrow> nat \<Rightarrow> bounds option \<Rightarrow> point \<Rightarrow> (int \<times> int \<times> nat) option" where
  "point_key E W H ext p =
     (case ext of
        None \<Rightarrow> None
      | Some e \<Rightarrow> if in_extent E e p then grid_key W H (bin_point E W H e p) else None)"

text \<open>\<open>SUM(n) OVER (PARTITION BY ix, iy)\<close>.\<close>

definition partition_sum :: "((int \<times> int \<times> nat) \<times> nat) list \<Rightarrow> int \<Rightarrow> int \<Rightarrow> nat" where
  "partition_sum g i j =
     sum_list (map snd (filter (\<lambda>a. fst (fst a) = i \<and> fst (snd (fst a)) = j) g))"

definition mk_row :: "((int \<times> int \<times> nat) \<times> nat) list \<Rightarrow> (int \<times> int \<times> nat) \<times> nat \<Rightarrow> row" where
  "mk_row g a =
     (case a of ((i, j, c), m) \<Rightarrow>
        \<lparr>r_ix = i, r_iy = j, r_cat = c, r_n = m, r_ntot = partition_sum g i j\<rparr>)"

text \<open>\<open>ORDER BY iy, ix, cat_id\<close>.\<close>

definition order_key :: "row \<Rightarrow> int \<times> int \<times> nat" where
  "order_key r = (r_iy r, r_ix r, r_cat r)"

definition binning_query ::
  "engine \<Rightarrow> nat \<Rightarrow> nat \<Rightarrow> bounds option \<Rightarrow> point list \<Rightarrow> row list" where
  "binning_query E W H ext tbl =
     (let g = agg W H (binned E W H ext tbl)
      in sort_key order_key (map (mk_row g) g))"

section \<open>Accumulation into the typed arrays\<close>

text \<open>A store into a \<open>Uint32Array\<close>: an index outside the array is ignored.\<close>

definition u32_store :: "32 word list \<Rightarrow> int \<Rightarrow> 32 word \<Rightarrow> 32 word list" where
  "u32_store a j v = (if 0 \<le> j \<and> j < int (length a) then a[nat j := v] else a)"

text \<open>
  \<open>a[j] += m\<close> on a \<open>Uint32Array\<close>: outside the array the read is \<open>undefined\<close> and the
  store is ignored.
\<close>

definition u32_add :: "32 word list \<Rightarrow> int \<Rightarrow> nat \<Rightarrow> 32 word list" where
  "u32_add a j m =
     (if 0 \<le> j \<and> j < int (length a) then a[nat j := a ! nat j + of_nat m] else a)"

text \<open>The body of the loop over the rows.\<close>

definition accumulate_row :: "nat \<Rightarrow> row \<Rightarrow> accum \<Rightarrow> accum" where
  "accumulate_row W r s =
     (let idx = r_iy r * int W + r_ix r
      in \<lparr>totals = u32_store (totals s) idx (of_nat (r_ntot r)),
          counts = u32_add (counts s) (idx * 4 + int (r_cat r)) (r_n r),
          maxTot = (if r_ntot r > maxTot s then r_ntot r else maxTot s)\<rparr>)"

text \<open>The index \<open>idx = iy * W + ix\<close> of the cell of a row.\<close>

definition row_idx :: "nat \<Rightarrow> row \<Rightarrow> int" where
  "row_idx W r = r_iy r * int W + r_ix r"

definition accum_init :: "nat \<Rightarrow> nat \<Rightarrow> accum" where
  "accum_init W H =
     \<lparr>totals = replicate (W * H) 0, counts = replicate (W * H * 4) 0, maxTot = 0\<rparr>"

definition accumulate :: "nat \<Rightarrow> nat \<Rightarrow> row list \<Rightarrow> accum" where
  "accumulate W H rows = fold (accumulate_row W) rows (accum_init W H)"

section \<open>Mixing and shading\<close>

text \<open>The body of the loop of \<open>mixSRGB\<close>: \<open>w = counts[k] / total\<close>, \<open>r += PALETTE[k][0] * w\<close>.\<close>

definition mix_step ::
  "RGB list \<Rightarrow> real list \<Rightarrow> real \<Rightarrow> nat \<Rightarrow> real \<times> real \<times> real \<Rightarrow> real \<times> real \<times> real" where
  "mix_step pal cs tot k acc =
     (case acc of (r, g, b) \<Rightarrow>
        (let w = js_div (cs ! k) tot
         in (js_add r (js_mul (real_of_int (fst (pal ! k))) w),
             js_add g (js_mul (real_of_int (fst (snd (pal ! k)))) w),
             js_add b (js_mul (real_of_int (snd (snd (pal ! k)))) w))))"

text \<open>
  \<open>Math.round\<close> is \<open>round\<close>, the floor of \<open>x + 1/2\<close>, computed without rounding error.
\<close>

definition mixSRGB :: "RGB list \<Rightarrow> real list \<Rightarrow> real \<Rightarrow> RGB" where
  "mixSRGB pal cs tot =
     (if tot = 0 then (255, 255, 255)
      else (case fold (mix_step pal cs tot) [0 ..< min (length cs) (length pal)] (0, 0, 0) of
              (r, g, b) \<Rightarrow> (round r, round g, round b)))"

text \<open>
  \<open>0.15 + 0.85 * Math.sqrt(tot / (maxTot || 1))\<close>; the two literals denote the numbers
  nearest to them.
\<close>

definition shade :: "nat \<Rightarrow> nat \<Rightarrow> real" where
  "shade tot mx =
     js_add (rnd64 0.15)
       (js_mul (rnd64 0.85) (js_sqrt (js_div (real tot) (real (if mx = 0 then 1 else mx)))))"

text \<open>The four counters of cell \<open>i\<close>, as passed to \<open>mixSRGB\<close>.\<close>

definition cell_counts :: "32 word list \<Rightarrow> nat \<Rightarrow> real list" where
  "cell_counts cs i =
     [real (unat (cs ! (i * 4))), real (unat (cs ! (i * 4 + 1))),
      real (unat (cs ! (i * 4 + 2))), real (unat (cs ! (i * 4 + 3)))]"

text \<open>The body of the loop over the cells.\<close>

definition render_cell :: "RGB list \<Rightarrow> accum \<Rightarrow> nat \<Rightarrow> css" where
  "render_cell pal s i =
     (let tot = unat (totals s ! i)
      in if tot = 0 then Transparent
         else (case mixSRGB pal (cell_counts (counts s) i) (real tot) of
                 (mr, mg, mb) \<Rightarrow>
                   Rgb (min 255 (round (js_mul (real_of_int mr) (shade tot (maxTot s)))))
                       (min 255 (round (js_mul (real_of_int mg) (shade tot (maxTot s)))))
                       (min 255 (round (js_mul (real_of_int mb) (shade tot (maxTot s)))))))"

definition render :: "nat \<Rightarrow> nat \<Rightarrow> RGB list \<Rightarrow> accum \<Rightarrow> css list" where
  "render W H pal s = map (render_cell pal s) [0 ..< W * H]"

section \<open>One refresh\<close>

definition aggregates :: "engine \<Rightarrow> nat \<Rightarrow> nat \<Rightarrow> point list \<Rightarrow> accum" where
  "aggregates E W H tbl = accumulate W H (binning_query E W H (extent_query tbl) tbl)"

definition refresh :: "engine \<Rightarrow> nat \<Rightarrow> nat \<Rightarrow> RGB list \<Rightarrow> point list \<Rightarrow> css list" where
  "refresh E W H pal tbl = render W H pal (aggregates E W H tbl)"

text \<open>The component as the source configures it.\<close>

definition GridMap :: "engine \<Rightarrow> point list \<Rightarrow> css list" where
  "GridMap E tbl = refresh E 32 32 PALETTE tbl"

section \<open>The table\<close>

text \<open>
  \<open>makeFakeArrowTable(N = 200_000, K = 4)\<close>: row \<open>i\<close> has the category \<open>c = i % K\<close> and
  coordinates drawn at random around \<open>centers[c]\<close> and stored in \<open>Float32Array\<close>s; the stored
  values are the parameters \<open>xs\<close> and \<open>ys\<close>. There are four centres: for a \<open>c\<close> that is not
  below 4 (or not a number, when \<open>K\<close> is 0) the destructuring of \<open>centers[c]\<close> throws, and no
  table is returned (\<open>None\<close>).
\<close>

definition makeFakeArrowTable ::
  "(nat \<Rightarrow> real) \<Rightarrow> (nat \<Rightarrow> real) \<Rightarrow> nat \<Rightarrow> nat \<Rightarrow> point list option" where
  "makeFakeArrowTable xs ys N K =
     (if N = 0 then Some []
      else if K = 0 then None
      else if list_all (\<lambda>i. i mod K < 4) [0 ..< N]
        then Some (map (\<lambda>i. \<lparr>umap_x = xs i, umap_y = ys i, cat_id = i mod K\<rparr>) [0 ..< N])
      else None)"

text \<open>
  \<open>loadData\<close> of the store drops \<open>arrow_table\<close> and fills it with \<open>makeFakeArrowTable()\<close>, of
  the default arguments; the component runs its queries only after \<open>loadData\<close> has set
  \<open>lastResult\<close>. The only other writer of a table of that name, a test page, inserts
  \<open>makeFakeArrowTable()\<close> too.
\<close>

definition loadData :: "(nat \<Rightarrow> real) \<Rightarrow> (nat \<Rightarrow> real) \<Rightarrow> point list option" where
  "loadData xs ys = makeFakeArrowTable xs ys 200000 4"

section \<open>In-process aggregation, as the specification words it\<close>

text \<open>
  The source computes bins and aggregates only through the query. The specification also
  describes a binner and an aggregator that iterate over the points (its sections 4.2 and
  4.3); the definitions of this section follow those words, with \<open>K\<close> the length of the
  palette, to be compared with the aggregates of the source.
\<close>









section \<open>Concrete inputs\<close>

text \<open>Two points with the same \<open>umap_x\<close>.\<close>

definition same_pts :: "point list" where
  "same_pts = [\<lparr>umap_x = 3, umap_y = 5, cat_id = 1\<rparr>, \<lparr>umap_x = 3, umap_y = 7, cat_id = 2\<rparr>]"

text \<open>
  The scenario of the specification, for \<open>W = H = 2\<close>: two points at \<open>(0, 0)\<close> of
  category 0 and one at \<open>(9, 9)\<close> of category 1.
\<close>

definition scen :: "point list" where
  "scen = [\<lparr>umap_x = 0, umap_y = 0, cat_id = 0\<rparr>, \<lparr>umap_x = 0, umap_y = 0, cat_id = 0\<rparr>,
           \<lparr>umap_x = 9, umap_y = 9, cat_id = 1\<rparr>]"

text \<open>The palette of the scenario, of two colours.\<close>

definition palette2 :: "RGB list" where
  "palette2 = [(255, 0, 0), (0, 255, 0)]"

text \<open>
  Five points of category 0 and five of category 2 in cell \<open>(0, 0)\<close> of a grid of
  \<open>2 \<times> 2\<close> cells, and the point that sets the maximum of the extent.
\<close>

definition dilute :: "point list" where
  "dilute =
     [\<lparr>umap_x = 0, umap_y = 0, cat_id = 0\<rparr>, \<lparr>umap_x = 1, umap_y = 1, cat_id = 2\<rparr>,
      \<lparr>umap_x = 0, umap_y = 0, cat_id = 0\<rparr>, \<lparr>umap_x = 1, umap_y = 1, cat_id = 2\<rparr>,
      \<lparr>umap_x = 0, umap_y = 0, cat_id = 0\<rparr>, \<lparr>umap_x = 1, umap_y = 1, cat_id = 2\<rparr>,
      \<lparr>umap_x = 0, umap_y = 0, cat_id = 0\<rparr>, \<lparr>umap_x = 1, umap_y = 1, cat_id = 2\<rparr>,
      \<lparr>umap_x = 0, umap_y = 0, cat_id = 0\<rparr>, \<lparr>umap_x = 1, umap_y = 1, cat_id = 2\<rparr>,
      \<lparr>umap_x = 9, umap_y = 9, cat_id = 0\<rparr>]"

text \<open>The rows of the scenario in another order.\<close>

definition scen_reordered :: "point list" where
  "scen_reordered = [\<lparr>umap_x = 9, umap_y = 9, cat_id = 1\<rparr>, \<lparr>umap_x = 0, umap_y = 0, cat_id = 0\<rparr>,
           \<lparr>umap_x = 0, umap_y = 0, cat_id = 0\<rparr>]"

text \<open>
  For the grid of \<open>32 \<times> 32\<close> cells of the component: a point of category 4 in cell
  \<open>(0, 0)\<close>, a point of category 1 in cell \<open>(1, 0)\<close>, and the point that sets the maximum of
  the extent.
\<close>

definition overflow_pts :: "point list" where
  "overflow_pts =
     [\<lparr>umap_x = 0, umap_y = 0, cat_id = 4\<rparr>, \<lparr>umap_x = 1, umap_y = 0, cat_id = 1\<rparr>,
      \<lparr>umap_x = 32, umap_y = 32, cat_id = 0\<rparr>]"

text \<open>
  Four points in cell \<open>(0, 0)\<close> and one in cell \<open>(1, 0)\<close> of a grid of \<open>2 \<times> 2\<close> cells,
  all of category 0, and the point that sets the maximum of the extent.
\<close>

definition quarter_pts :: "point list" where
  "quarter_pts =
     [\<lparr>umap_x = 0, umap_y = 0, cat_id = 0\<rparr>, \<lparr>umap_x = 0, umap_y = 0, cat_id = 0\<rparr>,
      \<lparr>umap_x = 0, umap_y = 0, cat_id = 0\<rparr>, \<lparr>umap_x = 0, umap_y = 0, cat_id = 0\<rparr>,
      \<lparr>umap_x = 5, umap_y = 0, cat_id = 0\<rparr>, \<lparr>umap_x = 9, umap_y = 9, cat_id = 0\<rparr>]"

text \<open>
  Three points of category 0 and one of each other category in cell \<open>(0, 0)\<close> of a grid of
  \<open>2 \<times> 2\<close> cells, and the point that sets the maximum of the extent.
\<close>

definition mixed6 :: "point list" where
  "mixed6 =
     [\<lparr>umap_x = 0, umap_y = 0, cat_id = 0\<rparr>, \<lparr>umap_x = 0, umap_y = 0, cat_id = 1\<rparr>,
      \<lparr>umap_x = 0, umap_y = 0, cat_id = 2\<rparr>, \<lparr>umap_x = 0, umap_y = 0, cat_id = 3\<rparr>,
      \<lparr>umap_x = 0, umap_y = 0, cat_id = 0\<rparr>, \<lparr>umap_x = 0, umap_y = 0, cat_id = 0\<rparr>,
      \<lparr>umap_x = 9, umap_y = 9, cat_id = 0\<rparr>]"

section \<open>Rounding to binary64\<close>

lemma round_even_of_int [simp]: "round_even (of_int k) = k"
  by (simp add: round_even_def)

lemma round_even_error: "\<bar>of_int (round_even y) - y\<bar> \<le> 1 / 2"
  unfolding round_even_def by (auto simp: abs_if) linarith+

lemma round_even_nonneg: "0 \<le> y \<Longrightarrow> 0 \<le> round_even y"
  unfolding round_even_def by auto

lemma floor_log2_eq:
  assumes "0 < x" and "2 powi k \<le> x" and "x < 2 powi (k + 1)"
  shows "\<lfloor>log 2 x\<rfloor> = k"
proof -
  have p: "(2::real) powi j = 2 powr of_int j" for j
    by (simp add: powr_real_of_int')
  have "of_int k \<le> log 2 x" using assms(1,2) by (simp add: le_log_iff p)
  moreover have "log 2 x < of_int (k + 1)" using assms(1,3) by (simp add: log_less_iff p)
  ultimately show ?thesis by (simp add: floor_eq_iff)
qed

lemma rnd64_eval:
  assumes "2 ^ 52 * 2 powi k \<le> \<bar>x\<bar>" and "\<bar>x\<bar> < 2 ^ 53 * 2 powi k"
  shows "rnd64 x = of_int (round_even (x / 2 powi k)) * 2 powi k"
proof -
  have "0 < (2::real) ^ 52 * 2 powi k" by simp
  then have pos: "0 < \<bar>x\<bar>" using assms(1) by linarith
  have a: "2 powi (k + 52) = (2::real) ^ 52 * 2 powi k"
    by (simp add: power_int_add)
  have b: "2 powi (k + 52 + 1) = (2::real) ^ 53 * 2 powi k"
    by (simp add: power_int_add)
  have "\<lfloor>log 2 \<bar>x\<bar>\<rfloor> = k + 52"
    by (rule floor_log2_eq [OF pos]) (simp_all only: a b assms)
  then show ?thesis using pos by (simp add: rnd64_def)
qed

lemma rnd64_zero [simp]: "rnd64 0 = 0"
  by (simp add: rnd64_def)

lemma rnd64_nonneg:
  assumes "0 \<le> x"
  shows "0 \<le> rnd64 x"
proof (cases "x = 0")
  case True
  then show ?thesis by simp
next
  case False
  have "0 \<le> x / 2 powi (\<lfloor>log 2 \<bar>x\<bar>\<rfloor> - 52)" using assms by simp
  then have "0 \<le> round_even (x / 2 powi (\<lfloor>log 2 \<bar>x\<bar>\<rfloor> - 52))" by (rule round_even_nonneg)
  then show ?thesis using False by (simp add: rnd64_def)
qed

lemma floor_log2_less:
  assumes "0 < x" and "x < 2 powi k"
  shows "\<lfloor>log 2 x\<rfloor> < k"
proof -
  have "(2::real) powi k = 2 powr of_int k" by (simp add: powr_real_of_int')
  then have "log 2 x < of_int k" using assms by (simp add: log_less_iff)
  then show ?thesis by (simp add: floor_less_iff)
qed

lemma rnd64_exact:
  assumes "\<bar>m\<bar> < 2 ^ 53"
  shows "rnd64 (of_int m * 2 powi k) = of_int m * 2 powi k"
proof (cases "m = 0")
  case True
  then show ?thesis by simp
next
  case False
  define x :: real where "x = of_int m * 2 powi k"
  define e where "e = \<lfloor>log 2 \<bar>x\<bar>\<rfloor> - 52"
  have x0: "x \<noteq> 0" using False by (simp add: x_def)
  have ax: "\<bar>x\<bar> = of_int \<bar>m\<bar> * 2 powi k" by (simp add: x_def abs_mult)
  have "of_int \<bar>m\<bar> < (2::real) ^ 53" using assms by (metis of_int_less_iff of_int_numeral of_int_power)
  then have "\<bar>x\<bar> < 2 ^ 53 * 2 powi k" unfolding ax by simp
  also have "\<dots> = 2 powi (k + 53)" by (simp add: power_int_add)
  finally have "\<lfloor>log 2 \<bar>x\<bar>\<rfloor> < k + 53" using x0 by (intro floor_log2_less) simp_all
  then have ek: "e \<le> k" by (simp add: e_def)
  then obtain d where d: "k = e + int d" by (metis zle_iff_zadd)
  have "x / 2 powi e = of_int m * 2 ^ d"
    by (simp add: x_def d power_int_add)
  also have "\<dots> = of_int (m * 2 ^ d)" by simp
  finally have "round_even (x / 2 powi e) = m * 2 ^ d" by (simp only: round_even_of_int)
  then have "rnd64 x = of_int (m * 2 ^ d) * 2 powi e"
    using x0 by (simp add: rnd64_def e_def [symmetric])
  also have "\<dots> = x" by (simp add: x_def d power_int_add)
  finally show ?thesis by (simp only: x_def)
qed

lemma rnd64_of_int:
  assumes "\<bar>m\<bar> < 2 ^ 53"
  shows "rnd64 (of_int m) = of_int m"
  using rnd64_exact [OF assms, of 0] by simp

lemma rnd64_numeral [simp]:
  assumes "(numeral n :: int) < 2 ^ 53"
  shows "rnd64 (numeral n) = numeral n"
  using rnd64_of_int [of "numeral n"] assms by simp

lemma rnd64_one [simp]: "rnd64 1 = 1"
  using rnd64_of_int [of 1] by simp

lemma rnd64_half_numeral [simp]:
  assumes "(numeral n :: int) < 2 ^ 53"
  shows "rnd64 (numeral n / 2) = numeral n / 2"
  using rnd64_exact [of "numeral n" "-1"] assms by simp

lemma rnd64_half [simp]: "rnd64 (1 / 2) = 1 / 2"
  using rnd64_exact [of 1 "-1"] by simp

lemma rnd64_error:
  "\<bar>rnd64 x - x\<bar> \<le> \<bar>x\<bar> / 2 ^ 53"
proof (cases "x = 0")
  case True
  then show ?thesis by simp
next
  case False
  define e where "e = \<lfloor>log 2 \<bar>x\<bar>\<rfloor>"
  define s :: real where "s = 2 powi (e - 52)"
  have s: "0 < s" by (simp add: s_def)
  have "of_int e \<le> log 2 \<bar>x\<bar>" by (simp add: e_def)
  then have "2 powr of_int e \<le> \<bar>x\<bar>" using False by (simp add: le_log_iff)
  then have lo: "2 powi e \<le> \<bar>x\<bar>" by (simp add: powr_real_of_int')
  have se: "s * 2 ^ 52 = 2 powi e" by (simp add: s_def power_int_diff)
  have "\<bar>of_int (round_even (x / s)) - x / s\<bar> \<le> 1 / 2" by (rule round_even_error)
  then have "\<bar>of_int (round_even (x / s)) - x / s\<bar> * s \<le> 1 / 2 * s"
    using s by (intro mult_right_mono) simp_all
  moreover have "\<bar>of_int (round_even (x / s)) - x / s\<bar> * s = \<bar>of_int (round_even (x / s)) * s - x\<bar>"
  proof -
    have "\<bar>of_int (round_even (x / s)) - x / s\<bar> * s = \<bar>(of_int (round_even (x / s)) - x / s) * s\<bar>"
      using s by (simp add: abs_mult)
    also have "(of_int (round_even (x / s)) - x / s) * s = of_int (round_even (x / s)) * s - x"
      using s by (simp add: left_diff_distrib)
    finally show ?thesis .
  qed
  ultimately have "\<bar>rnd64 x - x\<bar> \<le> s / 2"
    using False by (simp add: rnd64_def e_def [symmetric] s_def [symmetric])
  also have "s / 2 = 2 powi e / 2 ^ 53" using se by (simp add: field_simps)
  also have "\<dots> \<le> \<bar>x\<bar> / 2 ^ 53" using lo by (simp add: divide_right_mono)
  finally show ?thesis .
qed

section \<open>The extent and the degenerate cases\<close>

lemma fold_min_Min: "fold min vs (v::real) = Min (set (v # vs))"
  by (rule Min.set_eq_fold [symmetric])

lemma fold_max_Max: "fold max vs (v::real) = Max (set (v # vs))"
  by (rule Max.set_eq_fold [symmetric])

lemma extent_query_Nil: "extent_query [] = None"
  by (simp add: extent_query_def)

lemma extent_query_set:
  assumes "tbl \<noteq> []"
  shows "extent_query tbl =
    Some \<lparr>xmin = Min (umap_x ` set tbl), xmax = Max (umap_x ` set tbl),
          ymin = Min (umap_y ` set tbl), ymax = Max (umap_y ` set tbl)\<rparr>"
proof -
  obtain p ps where t: "tbl = p # ps" using assms by (cases tbl) auto
  have "set (umap_x p # map umap_x ps) = umap_x ` set tbl"
       "set (umap_y p # map umap_y ps) = umap_y ` set tbl" by (simp_all add: t)
  then show ?thesis
    by (simp only: t extent_query_def fold_min_Min fold_max_Max list.case)
qed

lemma binning_query_None: "binning_query E W H None tbl = []"
  by (simp add: binning_query_def binned_def agg_def List.map_filter_def)

lemma binning_query_degenerate:
  assumes "\<not> (xmin e < xmax e \<and> ymin e < ymax e)"
  shows "binning_query E W H (Some e) tbl = []"
proof -
  have "filter (in_extent E e) tbl = []"
    using assms by (auto simp: in_extent_def filter_empty_conv)
  then show ?thesis
    by (simp add: binning_query_def binned_def agg_def List.map_filter_def)
qed

lemma render_init: "render W H pal (accum_init W H) = replicate (W * H) Transparent"
proof -
  have "map (render_cell pal (accum_init W H)) [0 ..< W * H] = map (\<lambda>i. Transparent) [0 ..< W * H]"
    by (rule map_cong) (simp_all add: render_cell_def accum_init_def)
  then show ?thesis
    by (simp add: render_def map_replicate_const)
qed

lemma refresh_no_rows:
  assumes "binning_query E W H (extent_query tbl) tbl = []"
  shows "refresh E W H pal tbl = replicate (W * H) Transparent"
  using assms by (simp add: refresh_def aggregates_def accumulate_def render_init)

lemma Min_eq_Max_const:
  fixes f :: "'a \<Rightarrow> real"
  assumes "xs \<noteq> []" and "\<forall>p \<in> set xs. f p = c"
  shows "Min (f ` set xs) = Max (f ` set xs)"
proof -
  have "finite (f ` set xs)" "f ` set xs \<noteq> {}" using assms(1) by simp_all
  then have "Min (f ` set xs) \<in> f ` set xs" "Max (f ` set xs) \<in> f ` set xs"
    using Min_in Max_in by blast+
  then have "Min (f ` set xs) = c" "Max (f ` set xs) = c" using assms(2) by auto
  then show ?thesis by simp
qed

lemma refresh_empty_table: "refresh E W H pal [] = replicate (W * H) Transparent"
proof -
  have "binning_query E W H (extent_query []) [] = []"
    unfolding extent_query_Nil by (rule binning_query_None)
  then show ?thesis by (rule refresh_no_rows)
qed

lemma refresh_degenerate:
  assumes ne: "tbl \<noteq> []"
    and deg: "Min (umap_x ` set tbl) = Max (umap_x ` set tbl) \<or>
              Min (umap_y ` set tbl) = Max (umap_y ` set tbl)"
  shows "refresh E W H pal tbl = replicate (W * H) Transparent"
proof -
  define e where "e = \<lparr>xmin = Min (umap_x ` set tbl), xmax = Max (umap_x ` set tbl),
          ymin = Min (umap_y ` set tbl), ymax = Max (umap_y ` set tbl)\<rparr>"
  have e: "extent_query tbl = Some e" unfolding e_def by (rule extent_query_set [OF ne])
  have "xmin e = xmax e \<or> ymin e = ymax e" unfolding e_def using deg by simp
  then have "\<not> (xmin e < xmax e \<and> ymin e < ymax e)" by auto
  then have "binning_query E W H (extent_query tbl) tbl = []"
    unfolding e by (rule binning_query_degenerate)
  then show ?thesis by (rule refresh_no_rows)
qed

text \<open>
  Claim C6. A refresh over an empty table, or over a table whose points all have the same
  \<open>umap_x\<close> or all have the same \<open>umap_y\<close> (a bounding box of width or height zero),
  yields \<open>W * H\<close> entries that are all \<open>transparent\<close>; the model has no error branch.
\<close>

theorem degenerate_extent_all_empty:
  assumes "tbl = [] \<or> (\<forall>p \<in> set tbl. umap_x p = cx) \<or> (\<forall>p \<in> set tbl. umap_y p = cy)"
  shows "refresh E W H pal tbl = replicate (W * H) Transparent"
proof -
  consider (empty) "tbl = []"
    | (x) "tbl \<noteq> []" "\<forall>p \<in> set tbl. umap_x p = cx"
    | (y) "tbl \<noteq> []" "\<forall>p \<in> set tbl. umap_y p = cy"
    using assms by blast
  then show ?thesis
  proof cases
    case empty
    then show ?thesis by (simp only: refresh_empty_table)
  next
    case x
    show ?thesis
      by (rule refresh_degenerate [OF x(1)], rule disjI1, rule Min_eq_Max_const [OF x])
  next
    case y
    show ?thesis
      by (rule refresh_degenerate [OF y(1)], rule disjI2, rule Min_eq_Max_const [OF y])
  qed
qed

theorem degenerate_extent_all_empty_witness:
  "list_all (\<lambda>p. umap_x p = 3) same_pts \<and>
   refresh exact_engine 2 2 PALETTE same_pts = [Transparent, Transparent, Transparent, Transparent]"
proof -
  have h: "\<forall>p \<in> set same_pts. umap_x p = 3"
    by (simp add: same_pts_def)
  then have "same_pts = [] \<or> (\<forall>p \<in> set same_pts. umap_x p = 3)
             \<or> (\<forall>p \<in> set same_pts. umap_y p = 0)" by blast
  from degenerate_extent_all_empty [OF this, of exact_engine 2 2 PALETTE]
  have "refresh exact_engine 2 2 PALETTE same_pts = replicate (2 * 2) Transparent" .
  moreover have "replicate (2 * 2) Transparent = [Transparent, Transparent, Transparent, Transparent]"
    by code_simp
  ultimately show ?thesis using h by (simp add: list_all_iff)
qed

section \<open>The mixer on a total of zero\<close>

text \<open>
  Claim C9, as stated, fails: for a total of zero \<open>mixSRGB\<close> returns an RGB triple, white.
\<close>

theorem mixSRGB_zero_total_counterexample:
  "mixSRGB PALETTE [0, 0, 0, 0] 0 = (255, 255, 255)"
  by (simp add: mixSRGB_def)

text \<open>
  Claim C9, amended. For a total of zero \<open>mixSRGB\<close> returns the triple \<open>(255, 255, 255)\<close>,
  whatever the palette and the counters.
\<close>

theorem mixSRGB_zero_total_white: "mixSRGB pal cs 0 = (255, 255, 255)"
  by (simp add: mixSRGB_def)

section \<open>The scenario of the specification\<close>

lemmas query_defs = exact_engine_def binning_query_def agg_def binned_def in_extent_def bin_point_def
  bin_index_def nullif_zero_def List.map_filter_def mk_row_def partition_sum_def order_key_def

lemmas accumulate_defs = accumulate_def accumulate_row_def accum_init_def u32_store_def u32_add_def

lemma replicate_4: "replicate 4 x = [x, x, x, x]"
  by (simp add: numeral_eq_Suc)

lemma replicate_16: "replicate 16 x = [x, x, x, x, x, x, x, x, x, x, x, x, x, x, x, x]"
  by (simp add: numeral_eq_Suc)

lemma scen_extent: "extent_query scen = Some \<lparr>xmin = 0, xmax = 9, ymin = 0, ymax = 9\<rparr>"
  by (simp add: scen_def extent_query_def)

lemma scen_rows:
  "binning_query exact_engine 2 2 (extent_query scen) scen =
     [\<lparr>r_ix = 0, r_iy = 0, r_cat = 0, r_n = 2, r_ntot = 2\<rparr>]"
  unfolding scen_extent by (simp add: scen_def query_defs)

lemma scen_aggregates:
  "aggregates exact_engine 2 2 scen =
     \<lparr>totals = [2, 0, 0, 0], counts = [2, 0, 0, 0, 0, 0, 0, 0, 0, 0, 0, 0, 0, 0, 0, 0], maxTot = 2\<rparr>"
  unfolding aggregates_def scen_rows by (simp add: accumulate_defs replicate_4 replicate_16)

section \<open>Totals, maximum and shade\<close>

lemma length_u32_store [simp]: "length (u32_store a j v) = length a"
  by (simp add: u32_store_def)

lemma length_u32_add [simp]: "length (u32_add a j m) = length a"
  by (simp add: u32_add_def)

lemma length_fold_accumulate_row:
  "length (totals (fold (accumulate_row W) rows s)) = length (totals s) \<and>
   length (counts (fold (accumulate_row W) rows s)) = length (counts s)"
  by (induction rows arbitrary: s) (simp_all add: accumulate_row_def Let_def)

lemma length_totals_accumulate [simp]: "length (totals (accumulate W H rows)) = W * H"
  by (simp add: accumulate_def length_fold_accumulate_row accum_init_def)

lemma length_counts_accumulate [simp]: "length (counts (accumulate W H rows)) = W * H * 4"
  by (simp add: accumulate_def length_fold_accumulate_row accum_init_def)





section \<open>Arithmetic of the shade\<close>

lemmas js_defs = js_add_def js_mul_def js_div_def js_sqrt_def

lemma rnd64_015: "rnd64 0.15 = 5404319552844595 / 2 ^ 55"
  using rnd64_eval [of "-55" "0.15"] by (simp add: round_even_def)

lemma rnd64_085: "rnd64 0.85 = 7656119366529843 / 2 ^ 53"
  using rnd64_eval [of "-53" "0.85"] by (simp add: round_even_def)

lemma rnd64_085_again: "rnd64 (7656119366529843 / 2 ^ 53) = 7656119366529843 / 2 ^ 53"
  using rnd64_exact [of 7656119366529843 "-53"] by simp

lemma rnd64_sum_015_085: "rnd64 (5404319552844595 / 2 ^ 55 + 7656119366529843 / 2 ^ 53) = 1"
  using rnd64_eval [of "-53" "5404319552844595 / 2 ^ 55 + 7656119366529843 / 2 ^ 53"]
  by (simp add: round_even_def)

lemma shade_of_one: "rnd64 (rnd64 (3 / 20) + rnd64 (rnd64 (17 / 20))) = 1"
proof -
  have "rnd64 (rnd64 0.15 + rnd64 (rnd64 0.85)) = 1"
    unfolding rnd64_015 rnd64_085 rnd64_085_again by (rule rnd64_sum_015_085)
  then show ?thesis by simp
qed

text \<open>The densest cell has the shade 1.\<close>

lemma shade_full:
  assumes "0 < t"
  shows "shade t t = 1"
proof -
  have "js_sqrt (js_div (real t) (real t)) = 1" using assms by (simp add: js_defs)
  then have "shade t t = rnd64 (rnd64 0.15 + rnd64 (rnd64 0.85))"
    using assms by (simp add: shade_def js_defs)
  also have "\<dots> = 1"
    unfolding rnd64_015 rnd64_085 rnd64_085_again by (rule rnd64_sum_015_085)
  finally show ?thesis .
qed

lemma shade_nonneg: "0 \<le> shade t m"
proof -
  have "0 \<le> rnd64 0.15 + js_mul (rnd64 0.85) (js_sqrt (js_div (real t) (real (if m = 0 then 1 else m))))"
    by (intro add_nonneg_nonneg rnd64_nonneg mult_nonneg_nonneg)
       (simp_all add: js_defs rnd64_nonneg)
  then show ?thesis unfolding shade_def js_add_def by (rule rnd64_nonneg)
qed

text \<open>
  A cell of one point beside a densest cell of four has the shade \<open>0.575\<close> as a number,
  and a channel of 100 under that shade is drawn 57: the product is rounded below
  \<open>57.5\<close>.
\<close>

lemma shade_one_of_four: "shade 1 4 = 2589569785738035 / 2 ^ 52"
proof -
  have q: "rnd64 (1 / 4) = 1 / 4" using rnd64_exact [of 1 "-2"] by simp
  have r: "sqrt (1 / 4) = 1 / 2" by (simp add: real_sqrt_divide)
  have h: "rnd64 (7656119366529843 / 2 ^ 53 * (1 / 2)) = 7656119366529843 / 2 ^ 54"
    using rnd64_exact [of 7656119366529843 "-54"] by simp
  have s: "rnd64 (5404319552844595 / 2 ^ 55 + 7656119366529843 / 2 ^ 54) =
           2589569785738035 / 2 ^ 52"
    using rnd64_eval [of "-53" "5404319552844595 / 2 ^ 55 + 7656119366529843 / 2 ^ 54"]
    by (simp add: round_even_def)
  have "shade 1 4 = rnd64 (rnd64 0.15 + rnd64 (rnd64 0.85 * rnd64 (sqrt (rnd64 (1 / 4)))))"
    by (simp add: shade_def js_defs)
  also have "\<dots> = 2589569785738035 / 2 ^ 52"
    unfolding q r rnd64_half rnd64_015 rnd64_085 h by (rule s)
  finally show ?thesis .
qed

lemma channel_100_shade_one_of_four:
  "round (js_mul 100 (shade 1 4)) = 57 \<and> round (100 * (0.15 + 0.85 * sqrt (1 / 4)) :: real) = 58"
proof -
  have "rnd64 (100 * (2589569785738035 / 2 ^ 52)) = 8092405580431359 / 2 ^ 47"
    using rnd64_eval [of "-47" "100 * (2589569785738035 / 2 ^ 52)"] by (simp add: round_even_def)
  then have "js_mul 100 (shade 1 4) = 8092405580431359 / 2 ^ 47"
    by (simp only: js_mul_def shade_one_of_four)
  moreover have "round (8092405580431359 / 2 ^ 47 :: real) = 57"
    by (simp add: round_def)
  ultimately have "round (js_mul 100 (shade 1 4)) = 57"
    by (simp only:)
  moreover have "round (100 * (0.15 + 0.85 * sqrt (1 / 4)) :: real) = 58"
    by (simp add: real_sqrt_divide round_def)
  ultimately show ?thesis by simp
qed



section \<open>Empty cells\<close>

lemma render_cell_Transparent_iff:
  "render_cell pal s i = Transparent \<longleftrightarrow> unat (totals s ! i) = 0"
  by (simp add: render_cell_def Let_def split: prod.splits)

lemma refresh_nth:
  assumes "i < W * H"
  shows "refresh E W H pal tbl ! i = render_cell pal (aggregates E W H tbl) i"
  using assms by (simp add: refresh_def render_def)

lemma length_refresh: "length (refresh E W H pal tbl) = W * H"
  by (simp add: refresh_def render_def)

lemma scen_cell_0: "refresh exact_engine 2 2 PALETTE scen ! 0 = Rgb 230 57 70"
proof -
  have b: "(0::nat) < 2 * 2" by simp
  have s: "shade 2 2 = 1" by (rule shade_full) simp
  show ?thesis
    unfolding refresh_nth [OF b]
    by (simp add: scen_aggregates render_cell_def cell_counts_def mixSRGB_def mix_step_def
        PALETTE_def s js_defs)
qed

text \<open>
  With a palette of one grey of channel 100, the cell of one point beside the cell of four is
  drawn \<open>rgb(57, 57, 57)\<close>: the product of 100 and the shade is rounded to binary64 before
  \<open>Math.round\<close>.
\<close>

lemma quarter_extent: "extent_query quarter_pts = Some \<lparr>xmin = 0, xmax = 9, ymin = 0, ymax = 9\<rparr>"
  by (simp add: quarter_pts_def extent_query_def)

lemma quarter_rows:
  "binning_query exact_engine 2 2 (extent_query quarter_pts) quarter_pts =
     [\<lparr>r_ix = 0, r_iy = 0, r_cat = 0, r_n = 4, r_ntot = 4\<rparr>,
      \<lparr>r_ix = 1, r_iy = 0, r_cat = 0, r_n = 1, r_ntot = 1\<rparr>]"
  unfolding quarter_extent by (simp add: quarter_pts_def query_defs)

lemma quarter_aggregates:
  "aggregates exact_engine 2 2 quarter_pts =
     \<lparr>totals = [4, 1, 0, 0], counts = [4, 0, 0, 0, 1, 0, 0, 0, 0, 0, 0, 0, 0, 0, 0, 0], maxTot = 4\<rparr>"
  unfolding aggregates_def quarter_rows by (simp add: accumulate_defs replicate_4 replicate_16)

lemma quarter_cell_1:
  "refresh exact_engine 2 2 [(100, 100, 100)] quarter_pts ! 1 = Rgb 57 57 57"
proof -
  have b: "(1::nat) < 2 * 2" by simp
  have t: "unat (totals (aggregates exact_engine 2 2 quarter_pts) ! 1) = 1"
    and x: "maxTot (aggregates exact_engine 2 2 quarter_pts) = 4" by (simp_all add: quarter_aggregates)
  have m: "mixSRGB [(100, 100, 100)] (cell_counts (counts (aggregates exact_engine 2 2 quarter_pts)) 1)
             (real 1) = (100, 100, 100)"
    by (simp add: quarter_aggregates cell_counts_def mixSRGB_def mix_step_def js_defs)
  have r: "round (js_mul (real_of_int 100) (shade 1 4)) = 57"
    using channel_100_shade_one_of_four by simp
  have one: "(1::nat) \<noteq> 0" by simp
  show ?thesis
    unfolding refresh_nth [OF b] render_cell_def Let_def t x m
    by (simp only: one if_False prod.case r) simp
qed

text \<open>
  Claim C5. A cell of the grid that a refresh produces is \<open>transparent\<close> exactly when its
  total is zero; and a cell whose total is zero is \<open>transparent\<close> whatever the counters, the
  maximum and the palette are: neither the mix nor the shade enters the result.
\<close>

theorem empty_cell_iff_total_zero:
  assumes "i < W * H"
  shows "(refresh E W H pal tbl ! i = Transparent \<longleftrightarrow> unat (totals (aggregates E W H tbl) ! i) = 0) \<and>
         (unat (totals s ! j) = 0 \<longrightarrow> render_cell pal' s j = Transparent)"
  by (simp add: refresh_nth [OF assms] render_cell_Transparent_iff)

theorem empty_cell_iff_total_zero_witness:
  "(1::nat) < 2 * 2 \<and> unat (totals (aggregates exact_engine 2 2 scen) ! 1) = 0 \<and>
   refresh exact_engine 2 2 PALETTE scen ! 1 = Transparent \<and>
   unat (totals (aggregates exact_engine 2 2 scen) ! 0) = 2 \<and>
   refresh exact_engine 2 2 PALETTE scen ! 0 = Rgb 230 57 70"
proof -
  have a: "(1::nat) < 2 * 2" and b: "(0::nat) < 2 * 2" by simp_all
  have t: "unat (totals (aggregates exact_engine 2 2 scen) ! 1) = 0" by (simp add: scen_aggregates)
  have "refresh exact_engine 2 2 PALETTE scen ! 1 = Transparent"
    using empty_cell_iff_total_zero [OF a, of exact_engine PALETTE scen] t by simp
  moreover have "refresh exact_engine 2 2 PALETTE scen ! 0 = Rgb 230 57 70"
    by (rule scen_cell_0)
  ultimately show ?thesis using t by (simp add: scen_aggregates)
qed

section \<open>The shade that the renderer applies\<close>



section \<open>The mix as a sum in binary64\<close>

lemma upt_4: "[0 ..< 4] = [0, 1, 2, 3]"
  by (simp add: upt_rec)

lemma fold_mix_step:
  "fold (mix_step pal cs t) [0 ..< m] (r, g, b) =
     (foldl js_add r (map (\<lambda>k. js_mul (real_of_int (fst (pal ! k))) (js_div (cs ! k) t)) [0 ..< m]),
      foldl js_add g (map (\<lambda>k. js_mul (real_of_int (fst (snd (pal ! k)))) (js_div (cs ! k) t)) [0 ..< m]),
      foldl js_add b (map (\<lambda>k. js_mul (real_of_int (snd (snd (pal ! k)))) (js_div (cs ! k) t)) [0 ..< m]))"
  by (induction m) (simp_all add: mix_step_def Let_def)

lemma mixSRGB_js_sum:
  assumes "t \<noteq> 0"
  shows "mixSRGB pal cs t =
     (round (js_sum (map (\<lambda>k. js_mul (real_of_int (fst (pal ! k))) (js_div (cs ! k) t))
                      [0 ..< min (length cs) (length pal)])),
      round (js_sum (map (\<lambda>k. js_mul (real_of_int (fst (snd (pal ! k)))) (js_div (cs ! k) t))
                      [0 ..< min (length cs) (length pal)])),
      round (js_sum (map (\<lambda>k. js_mul (real_of_int (snd (snd (pal ! k)))) (js_div (cs ! k) t))
                      [0 ..< min (length cs) (length pal)])))"
  using assms by (simp add: mixSRGB_def fold_mix_step js_sum_def)

lemma mixSRGB_4:
  assumes "t \<noteq> 0"
  shows "mixSRGB [(r0, g0, b0), (r1, g1, b1), (r2, g2, b2), (r3, g3, b3)] [c0, c1, c2, c3] t =
     (round (js_add (js_add (js_add (js_add 0 (js_mul (real_of_int r0) (js_div c0 t)))
               (js_mul (real_of_int r1) (js_div c1 t))) (js_mul (real_of_int r2) (js_div c2 t)))
               (js_mul (real_of_int r3) (js_div c3 t))),
      round (js_add (js_add (js_add (js_add 0 (js_mul (real_of_int g0) (js_div c0 t)))
               (js_mul (real_of_int g1) (js_div c1 t))) (js_mul (real_of_int g2) (js_div c2 t)))
               (js_mul (real_of_int g3) (js_div c3 t))),
      round (js_add (js_add (js_add (js_add 0 (js_mul (real_of_int b0) (js_div c0 t)))
               (js_mul (real_of_int b1) (js_div c1 t))) (js_mul (real_of_int b2) (js_div c2 t)))
               (js_mul (real_of_int b3) (js_div c3 t))))"
  using assms by (simp add: mixSRGB_def mix_step_def upt_4 Let_def)

lemma mix_3111_red:
  "js_add (js_add (js_add (js_add 0 (js_mul 230 (js_div 3 6))) (js_mul 29 (js_div 1 6))) (js_mul 69 (js_div 1 6))) (js_mul 241 (js_div 1 6)) =
     6034119813234687 / 2 ^ 45"
proof -
  have w0: "rnd64 (3 / 6) = 1 / 2"
    using rnd64_eval [of "-53" "3 / 6"] by (simp add: round_even_def)
  have q0: "rnd64 (230 * (1 / 2)) = 115"
    using rnd64_eval [of "-46" "230 * (1 / 2)"] by (simp add: round_even_def)
  have s0: "rnd64 (0 + 115) = 115"
    using rnd64_eval [of "-46" "0 + 115"] by (simp add: round_even_def)
  have w1: "rnd64 (1 / 6) = 6004799503160661 / 2 ^ 55"
    using rnd64_eval [of "-55" "1 / 6"] by (simp add: round_even_def)
  have q1: "rnd64 (29 * (6004799503160661 / 2 ^ 55)) = 5441849549739349 / 2 ^ 50"
    using rnd64_eval [of "-50" "29 * (6004799503160661 / 2 ^ 55)"] by (simp add: round_even_def)
  have s1: "rnd64 (115 + 5441849549739349 / 2 ^ 50) = 8432521177290069 / 2 ^ 46"
    using rnd64_eval [of "-46" "115 + 5441849549739349 / 2 ^ 50"] by (simp add: round_even_def)
  have q2: "rnd64 (69 * (6004799503160661 / 2 ^ 55)) = 23 / 2"
    using rnd64_eval [of "-49" "69 * (6004799503160661 / 2 ^ 55)"] by (simp add: round_even_def)
  have s2: "rnd64 (8432521177290069 / 2 ^ 46 + 23 / 2) = 2310440433833301 / 2 ^ 44"
    using rnd64_eval [of "-45" "8432521177290069 / 2 ^ 46 + 23 / 2"] by (simp add: round_even_def)
  have q3: "rnd64 (241 * (6004799503160661 / 2 ^ 55)) = 5652955782272341 / 2 ^ 47"
    using rnd64_eval [of "-47" "241 * (6004799503160661 / 2 ^ 55)"] by (simp add: round_even_def)
  have s3: "rnd64 (2310440433833301 / 2 ^ 44 + 5652955782272341 / 2 ^ 47) = 6034119813234687 / 2 ^ 45"
    using rnd64_eval [of "-45" "2310440433833301 / 2 ^ 44 + 5652955782272341 / 2 ^ 47"] by (simp add: round_even_def)
  show ?thesis by (simp only: js_defs w0 q0 s0 w1 q1 s1 q2 s2 q3 s3)
qed

lemma mix_3111_green:
  "js_add (js_add (js_add (js_add 0 (js_mul 57 (js_div 3 6))) (js_mul 53 (js_div 1 6))) (js_mul 123 (js_div 1 6))) (js_mul 196 (js_div 1 6)) =
     181 / 2"
proof -
  have w0: "rnd64 (3 / 6) = 1 / 2"
    using rnd64_eval [of "-53" "3 / 6"] by (simp add: round_even_def)
  have q0: "rnd64 (57 * (1 / 2)) = 57 / 2"
    using rnd64_eval [of "-48" "57 * (1 / 2)"] by (simp add: round_even_def)
  have s0: "rnd64 (0 + 57 / 2) = 57 / 2"
    using rnd64_eval [of "-48" "0 + 57 / 2"] by (simp add: round_even_def)
  have w1: "rnd64 (1 / 6) = 6004799503160661 / 2 ^ 55"
    using rnd64_eval [of "-55" "1 / 6"] by (simp add: round_even_def)
  have q1: "rnd64 (53 * (6004799503160661 / 2 ^ 55)) = 2486362294277461 / 2 ^ 48"
    using rnd64_eval [of "-49" "53 * (6004799503160661 / 2 ^ 55)"] by (simp add: round_even_def)
  have s1: "rnd64 (57 / 2 + 2486362294277461 / 2 ^ 48) = 2627099782632789 / 2 ^ 46"
    using rnd64_eval [of "-47" "57 / 2 + 2486362294277461 / 2 ^ 48"] by (simp add: round_even_def)
  have q2: "rnd64 (123 * (6004799503160661 / 2 ^ 55)) = 41 / 2"
    using rnd64_eval [of "-48" "123 * (6004799503160661 / 2 ^ 55)"] by (simp add: round_even_def)
  have s2: "rnd64 (2627099782632789 / 2 ^ 46 + 41 / 2) = 4069659038274901 / 2 ^ 46"
    using rnd64_eval [of "-47" "2627099782632789 / 2 ^ 46 + 41 / 2"] by (simp add: round_even_def)
  have q3: "rnd64 (196 * (6004799503160661 / 2 ^ 55)) = 4597424619607381 / 2 ^ 47"
    using rnd64_eval [of "-47" "196 * (6004799503160661 / 2 ^ 55)"] by (simp add: round_even_def)
  have s3: "rnd64 (4069659038274901 / 2 ^ 46 + 4597424619607381 / 2 ^ 47) = 181 / 2"
    using rnd64_eval [of "-46" "4069659038274901 / 2 ^ 46 + 4597424619607381 / 2 ^ 47"] by (simp add: round_even_def)
  show ?thesis by (simp only: js_defs w0 q0 s0 w1 q1 s1 q2 s2 q3 s3)
qed

lemma mix_3111_blue:
  "js_add (js_add (js_add (js_add 0 (js_mul 70 (js_div 3 6))) (js_mul 87 (js_div 1 6))) (js_mul 157 (js_div 1 6))) (js_mul 15 (js_div 1 6)) =
     2750245084943701 / 2 ^ 45"
proof -
  have w0: "rnd64 (3 / 6) = 1 / 2"
    using rnd64_eval [of "-53" "3 / 6"] by (simp add: round_even_def)
  have q0: "rnd64 (70 * (1 / 2)) = 35"
    using rnd64_eval [of "-47" "70 * (1 / 2)"] by (simp add: round_even_def)
  have s0: "rnd64 (0 + 35) = 35"
    using rnd64_eval [of "-47" "0 + 35"] by (simp add: round_even_def)
  have w1: "rnd64 (1 / 6) = 6004799503160661 / 2 ^ 55"
    using rnd64_eval [of "-55" "1 / 6"] by (simp add: round_even_def)
  have q1: "rnd64 (87 * (6004799503160661 / 2 ^ 55)) = 29 / 2"
    using rnd64_eval [of "-49" "87 * (6004799503160661 / 2 ^ 55)"] by (simp add: round_even_def)
  have s1: "rnd64 (35 + 29 / 2) = 99 / 2"
    using rnd64_eval [of "-47" "35 + 29 / 2"] by (simp add: round_even_def)
  have q2: "rnd64 (157 * (6004799503160661 / 2 ^ 55)) = 3682630945297749 / 2 ^ 47"
    using rnd64_eval [of "-48" "157 * (6004799503160661 / 2 ^ 55)"] by (simp add: round_even_def)
  have s2: "rnd64 (99 / 2 + 3682630945297749 / 2 ^ 47) = 2662284154721621 / 2 ^ 45"
    using rnd64_eval [of "-46" "99 / 2 + 3682630945297749 / 2 ^ 47"] by (simp add: round_even_def)
  have q3: "rnd64 (15 * (6004799503160661 / 2 ^ 55)) = 5 / 2"
    using rnd64_eval [of "-51" "15 * (6004799503160661 / 2 ^ 55)"] by (simp add: round_even_def)
  have s3: "rnd64 (2662284154721621 / 2 ^ 45 + 5 / 2) = 2750245084943701 / 2 ^ 45"
    using rnd64_eval [of "-46" "2662284154721621 / 2 ^ 45 + 5 / 2"] by (simp add: round_even_def)
  show ?thesis by (simp only: js_defs w0 q0 s0 w1 q1 s1 q2 s2 q3 s3)
qed


lemma mix_3111: "mixSRGB PALETTE [3, 1, 1, 1] 6 = (171, 91, 78)"
proof -
  have t: "(6::real) \<noteq> 0" by simp
  have r: "round (6034119813234687 / 2 ^ 45 :: real) = 171" by (simp add: round_def)
  have g: "round (181 / 2 :: real) = 91" by (simp add: round_def)
  have b: "round (2750245084943701 / 2 ^ 45 :: real) = 78" by (simp add: round_def)
  show ?thesis
    unfolding PALETTE_def mixSRGB_4 [OF t]
    by (simp only: of_int_numeral mix_3111_red mix_3111_green mix_3111_blue r g b)
qed


lemma mixed6_extent: "extent_query mixed6 = Some \<lparr>xmin = 0, xmax = 9, ymin = 0, ymax = 9\<rparr>"
  by (simp add: mixed6_def extent_query_def)

lemma mixed6_rows:
  "binning_query exact_engine 2 2 (extent_query mixed6) mixed6 =
     [\<lparr>r_ix = 0, r_iy = 0, r_cat = 0, r_n = 3, r_ntot = 6\<rparr>,
      \<lparr>r_ix = 0, r_iy = 0, r_cat = 1, r_n = 1, r_ntot = 6\<rparr>,
      \<lparr>r_ix = 0, r_iy = 0, r_cat = 2, r_n = 1, r_ntot = 6\<rparr>,
      \<lparr>r_ix = 0, r_iy = 0, r_cat = 3, r_n = 1, r_ntot = 6\<rparr>]"
  unfolding mixed6_extent by (simp add: mixed6_def query_defs)

lemma mixed6_aggregates:
  "aggregates exact_engine 2 2 mixed6 =
     \<lparr>totals = [6, 0, 0, 0], counts = [3, 1, 1, 1, 0, 0, 0, 0, 0, 0, 0, 0, 0, 0, 0, 0], maxTot = 6\<rparr>"
  unfolding aggregates_def mixed6_rows by (simp add: accumulate_defs replicate_4 replicate_16)

lemma mixed6_cell_counts:
  "cell_counts (counts (aggregates exact_engine 2 2 mixed6)) 0 = [3, 1, 1, 1]"
  by (simp add: mixed6_aggregates cell_counts_def)

lemma mixed6_cell_0: "refresh exact_engine 2 2 PALETTE mixed6 ! 0 = Rgb 171 91 78"
proof -
  have b: "(0::nat) < 2 * 2" by simp
  have s: "shade 6 6 = 1" by (rule shade_full) simp
  have t: "unat (totals (aggregates exact_engine 2 2 mixed6) ! 0) = 6"
    and x: "maxTot (aggregates exact_engine 2 2 mixed6) = 6" by (simp_all add: mixed6_aggregates)
  have m: "mixSRGB PALETTE [3, 1, 1, 1] (real 6) = (171, 91, 78)"
    using mix_3111 by simp
  show ?thesis
    unfolding refresh_nth [OF b] render_cell_def Let_def t x mixed6_cell_counts m s
    by (simp add: js_defs)
qed

lemma mix_2271_red:
  "js_add (js_add (js_add (js_add 0 (js_mul 230 (js_div 2 12))) (js_mul 29 (js_div 2 12))) (js_mul 69 (js_div 7 12))) (js_mul 241 (js_div 1 12)) =
     7283165022388223 / 2 ^ 46"
proof -
  have w0: "rnd64 (2 / 12) = 6004799503160661 / 2 ^ 55"
    using rnd64_eval [of "-55" "2 / 12"] by (simp add: round_even_def)
  have q0: "rnd64 (230 * (6004799503160661 / 2 ^ 55)) = 2697468526810453 / 2 ^ 46"
    using rnd64_eval [of "-47" "230 * (6004799503160661 / 2 ^ 55)"] by (simp add: round_even_def)
  have s0: "rnd64 (0 + 2697468526810453 / 2 ^ 46) = 2697468526810453 / 2 ^ 46"
    using rnd64_eval [of "-47" "0 + 2697468526810453 / 2 ^ 46"] by (simp add: round_even_def)
  have q1: "rnd64 (29 * (6004799503160661 / 2 ^ 55)) = 5441849549739349 / 2 ^ 50"
    using rnd64_eval [of "-50" "29 * (6004799503160661 / 2 ^ 55)"] by (simp add: round_even_def)
  have s1: "rnd64 (2697468526810453 / 2 ^ 46 + 5441849549739349 / 2 ^ 50) = 6075168247338325 / 2 ^ 47"
    using rnd64_eval [of "-47" "2697468526810453 / 2 ^ 46 + 5441849549739349 / 2 ^ 50"] by (simp add: round_even_def)
  have w2: "rnd64 (7 / 12) = 5254199565265579 / 2 ^ 53"
    using rnd64_eval [of "-53" "7 / 12"] by (simp add: round_even_def)
  have q2: "rnd64 (69 * (5254199565265579 / 2 ^ 53)) = 161 / 2 ^ 2"
    using rnd64_eval [of "-47" "69 * (5254199565265579 / 2 ^ 53)"] by (simp add: round_even_def)
  have s2: "rnd64 (6075168247338325 / 2 ^ 47 + 161 / 2 ^ 2) = 2934963038410069 / 2 ^ 45"
    using rnd64_eval [of "-46" "6075168247338325 / 2 ^ 47 + 161 / 2 ^ 2"] by (simp add: round_even_def)
  have w3: "rnd64 (1 / 12) = 6004799503160661 / 2 ^ 56"
    using rnd64_eval [of "-56" "1 / 12"] by (simp add: round_even_def)
  have q3: "rnd64 (241 * (6004799503160661 / 2 ^ 56)) = 5652955782272341 / 2 ^ 48"
    using rnd64_eval [of "-48" "241 * (6004799503160661 / 2 ^ 56)"] by (simp add: round_even_def)
  have s3: "rnd64 (2934963038410069 / 2 ^ 45 + 5652955782272341 / 2 ^ 48) = 7283165022388223 / 2 ^ 46"
    using rnd64_eval [of "-46" "2934963038410069 / 2 ^ 45 + 5652955782272341 / 2 ^ 48"] by (simp add: round_even_def)
  show ?thesis by (simp only: js_defs w0 q0 s0 q1 s1 w2 q2 s2 w3 q3 s3)
qed

lemma product_first_2271_red:
  "js_add (js_add (js_add (js_add 0 (js_div (js_mul 230 2) 12)) (js_div (js_mul 29 2) 12)) (js_div (js_mul 69 7) 12)) (js_div (js_mul 241 1) 12) =
     207 / 2"
proof -
  have m0: "rnd64 (230 * 2) = 460"
    using rnd64_eval [of "-44" "230 * 2"] by (simp add: round_even_def)
  have q0: "rnd64 (460 / 12) = 5394937053620907 / 2 ^ 47"
    using rnd64_eval [of "-47" "460 / 12"] by (simp add: round_even_def)
  have s0: "rnd64 (0 + 5394937053620907 / 2 ^ 47) = 5394937053620907 / 2 ^ 47"
    using rnd64_eval [of "-47" "0 + 5394937053620907 / 2 ^ 47"] by (simp add: round_even_def)
  have m1: "rnd64 (29 * 2) = 58"
    using rnd64_eval [of "-47" "29 * 2"] by (simp add: round_even_def)
  have q1: "rnd64 (58 / 12) = 5441849549739349 / 2 ^ 50"
    using rnd64_eval [of "-50" "58 / 12"] by (simp add: round_even_def)
  have s1: "rnd64 (5394937053620907 / 2 ^ 47 + 5441849549739349 / 2 ^ 50) = 3037584123669163 / 2 ^ 46"
    using rnd64_eval [of "-47" "5394937053620907 / 2 ^ 47 + 5441849549739349 / 2 ^ 50"] by (simp add: round_even_def)
  have m2: "rnd64 (69 * 7) = 483"
    using rnd64_eval [of "-44" "69 * 7"] by (simp add: round_even_def)
  have q2: "rnd64 (483 / 12) = 161 / 2 ^ 2"
    using rnd64_eval [of "-47" "483 / 12"] by (simp add: round_even_def)
  have s2: "rnd64 (3037584123669163 / 2 ^ 46 + 161 / 2 ^ 2) = 5869926076820139 / 2 ^ 46"
    using rnd64_eval [of "-46" "3037584123669163 / 2 ^ 46 + 161 / 2 ^ 2"] by (simp add: round_even_def)
  have m3: "rnd64 (241 * 1) = 241"
    using rnd64_eval [of "-45" "241 * 1"] by (simp add: round_even_def)
  have q3: "rnd64 (241 / 12) = 5652955782272341 / 2 ^ 48"
    using rnd64_eval [of "-48" "241 / 12"] by (simp add: round_even_def)
  have s3: "rnd64 (5869926076820139 / 2 ^ 46 + 5652955782272341 / 2 ^ 48) = 207 / 2"
    using rnd64_eval [of "-46" "5869926076820139 / 2 ^ 46 + 5652955782272341 / 2 ^ 48"] by (simp add: round_even_def)
  show ?thesis by (simp only: js_defs m0 q0 s0 m1 q1 s1 m2 q2 s2 m3 q3 s3)
qed

lemma mix_2271: "fst (mixSRGB PALETTE [2, 2, 7, 1] 12) = 103"
proof -
  have t: "(12::real) \<noteq> 0" by simp
  have r: "round (7283165022388223 / 2 ^ 46 :: real) = 103" by (simp add: round_def)
  show ?thesis
    unfolding PALETTE_def mixSRGB_4 [OF t]
    by (simp only: fst_conv of_int_numeral mix_2271_red r)
qed

lemma product_first_2271:
  "round (js_sum [js_div (js_mul 230 2) 12, js_div (js_mul 29 2) 12, js_div (js_mul 69 7) 12,
                  js_div (js_mul 241 1) 12]) = 104"
proof -
  have r: "round (207 / 2 :: real) = 104" by (simp add: round_def)
  have "js_sum [js_div (js_mul 230 2) 12, js_div (js_mul 29 2) 12, js_div (js_mul 69 7) 12,
                js_div (js_mul 241 1) 12] = 207 / 2"
    unfolding js_sum_def foldl.simps by (rule product_first_2271_red)
  then show ?thesis by (simp only: r)
qed

text \<open>
  Claim C3, as stated, fails. A cell of three points of category 0 and one point of each of
  the categories 1, 2 and 3 has the counters \<open>[3, 1, 1, 1]\<close> and the total 6. The red channel
  of its mix is 171: the sum that \<open>mixSRGB\<close> accumulates in binary64 is
  \<open>6034119813234687 / 2 ^ 45\<close>, which is below \<open>171.5\<close>. The sum of
  \<open>palette[k].channel * counts[k] / total\<close> is \<open>1029 / 6 = 171.5\<close>, and rounds to 172. The
  cell is drawn \<open>rgb(171, 91, 78)\<close>. For the counters \<open>[2, 2, 7, 1]\<close> and the total 12 the red
  channel of the mix is 103, where the sum of \<open>palette[k].channel * counts[k] / total\<close> rounds
  to 104 both as a number and when the products, the quotients and the sum are computed in
  that order in binary64.
\<close>

theorem mixSRGB_not_exact_weighted_sum:
  "cell_counts (counts (aggregates exact_engine 2 2 mixed6)) 0 = [3, 1, 1, 1] \<and>
   unat (totals (aggregates exact_engine 2 2 mixed6) ! 0) = 6 \<and>
   mixSRGB PALETTE [3, 1, 1, 1] 6 = (171, 91, 78) \<and>
   round (\<Sum>k<4. real_of_int (fst (PALETTE ! k)) * [3, 1, 1, 1] ! k / 6) = 172 \<and>
   refresh exact_engine 2 2 PALETTE mixed6 ! 0 = Rgb 171 91 78 \<and>
   fst (mixSRGB PALETTE [2, 2, 7, 1] 12) = 103 \<and>
   round (\<Sum>k<4. real_of_int (fst (PALETTE ! k)) * [2, 2, 7, 1] ! k / 12) = 104 \<and>
   round (js_sum [js_div (js_mul 230 2) 12, js_div (js_mul 29 2) 12, js_div (js_mul 69 7) 12,
                  js_div (js_mul 241 1) 12]) = 104"
proof -
  have e: "(\<Sum>k<4. real_of_int (fst (PALETTE ! k)) * [3, 1, 1, 1] ! k / 6) = 343 / 2"
    by (simp add: PALETTE_def eval_nat_numeral lessThan_Suc)
  have "round (343 / 2 :: real) = 172" by (simp add: round_def)
  then have a: "round (\<Sum>k<4. real_of_int (fst (PALETTE ! k)) * [3, 1, 1, 1] ! k / 6) = 172"
    by (simp only: e)
  have e': "(\<Sum>k<4. real_of_int (fst (PALETTE ! k)) * [2, 2, 7, 1] ! k / 12) = 207 / 2"
    by (simp add: PALETTE_def eval_nat_numeral lessThan_Suc)
  have "round (207 / 2 :: real) = 104" by (simp add: round_def)
  then have b: "round (\<Sum>k<4. real_of_int (fst (PALETTE ! k)) * [2, 2, 7, 1] ! k / 12) = 104"
    by (simp only: e')
  have c: "unat (totals (aggregates exact_engine 2 2 mixed6) ! 0) = 6"
    by (simp add: mixed6_aggregates)
  show ?thesis
    using a b c mixed6_cell_counts mix_3111 mixed6_cell_0 mix_2271 product_first_2271 by blast
qed

lemma rnd64_half_of_int:
  assumes "\<bar>m\<bar> < 2 ^ 53"
  shows "rnd64 (real_of_int m * (1 / 2)) = real_of_int m * (1 / 2)"
  using rnd64_exact [OF assms, of "-1"] by simp

lemma mix_half:
  assumes "\<bar>m\<bar> < 2 ^ 53"
  shows "js_add (js_add 0 (js_mul (real_of_int m) (js_div 5 10))) (js_mul (real_of_int n) (js_div 0 10)) =
         real_of_int m * (1 / 2)"
proof -
  have w: "js_div 5 10 = 1 / 2" by (simp add: js_defs)
  have z: "js_div 0 10 = 0" by (simp add: js_defs)
  have q: "js_mul (real_of_int m) (1 / 2) = real_of_int m * (1 / 2)"
    unfolding js_mul_def by (rule rnd64_half_of_int [OF assms])
  have a: "js_add 0 (real_of_int m * (1 / 2)) = real_of_int m * (1 / 2)"
    unfolding js_add_def add_0 by (rule rnd64_half_of_int [OF assms])
  have y: "js_mul (real_of_int n) 0 = 0" by (simp add: js_defs)
  have b: "js_add (real_of_int m * (1 / 2)) 0 = real_of_int m * (1 / 2)"
    unfolding js_add_def add_0_right by (rule rnd64_half_of_int [OF assms])
  show ?thesis unfolding w z q a y b ..
qed

lemma mixSRGB_2:
  assumes "t \<noteq> 0"
  shows "mixSRGB [(r0, g0, b0), (r1, g1, b1)] [c0, c1, c2, c3] t =
     (round (js_add (js_add 0 (js_mul (real_of_int r0) (js_div c0 t)))
               (js_mul (real_of_int r1) (js_div c1 t))),
      round (js_add (js_add 0 (js_mul (real_of_int g0) (js_div c0 t)))
               (js_mul (real_of_int g1) (js_div c1 t))),
      round (js_add (js_add 0 (js_mul (real_of_int b0) (js_div c0 t)))
               (js_mul (real_of_int b1) (js_div c1 t))))"
  using assms by (simp add: mixSRGB_def mix_step_def Let_def numeral_2_eq_2)

lemma mixSRGB_dilute:
  assumes "\<bar>r0\<bar> < 2 ^ 53" and "\<bar>g0\<bar> < 2 ^ 53" and "\<bar>b0\<bar> < 2 ^ 53"
  shows "mixSRGB [(r0, g0, b0), (r1, g1, b1)] [5, 0, 5, 0] 10 =
     (round (real_of_int r0 * 0.5), round (real_of_int g0 * 0.5), round (real_of_int b0 * 0.5))"
proof -
  have t: "(10::real) \<noteq> 0" by simp
  have h: "(0.5::real) = 1 / 2" by simp
  show ?thesis
    unfolding mixSRGB_2 [OF t] mix_half [OF assms(1)] mix_half [OF assms(2)] mix_half [OF assms(3)] h ..
qed

text \<open>
  The distance of the accumulated sum from the sum of the exact terms, for counters that do
  not exceed the total, channels of at most 255 in magnitude and at most four terms.
\<close>

lemma round_close:
  fixes x y :: real
  assumes "\<bar>x - y\<bar> < 1"
  shows "\<bar>round x - round y\<bar> \<le> 1"
proof -
  have a: "real_of_int (round x) \<le> x + 1 / 2" "x - 1 / 2 < real_of_int (round x)"
    by (rule of_int_round_le, rule of_int_round_gt)
  have b: "real_of_int (round y) \<le> y + 1 / 2" "y - 1 / 2 < real_of_int (round y)"
    by (rule of_int_round_le, rule of_int_round_gt)
  have "real_of_int (round x) - real_of_int (round y) < 2"
       "real_of_int (round y) - real_of_int (round x) < 2"
    using a b assms by linarith+
  then have "round x - round y < 2" "round y - round x < 2"
    by linarith+
  then show ?thesis by linarith
qed

lemma term_error:
  fixes p :: int and c t :: real
  assumes t: "0 < t" and c: "0 \<le> c" "c \<le> t" and p: "\<bar>p\<bar> \<le> 255"
  shows "\<bar>js_mul (real_of_int p) (js_div c t) - real_of_int p * c / t\<bar> \<le> 2 ^ 10 / 2 ^ 53 \<and>
         \<bar>js_mul (real_of_int p) (js_div c t)\<bar> \<le> 2 ^ 10"
proof -
  define w where "w = c / t"
  define w' where "w' = rnd64 w"
  define q where "q = real_of_int p * w'"
  have w: "0 \<le> w" "w \<le> 1" using t c by (simp_all add: w_def)
  have "\<bar>w' - w\<bar> \<le> \<bar>w\<bar> / 2 ^ 53" unfolding w'_def by (rule rnd64_error)
  also have "\<dots> \<le> 1 / 2 ^ 53" using w by (simp add: divide_right_mono)
  finally have e1: "\<bar>w' - w\<bar> \<le> 1 / 2 ^ 53" .
  have "(1::real) / 2 ^ 53 \<le> 1" by simp
  then have "\<bar>w' - w\<bar> \<le> 1" using e1 by linarith
  then have w'b: "\<bar>w'\<bar> \<le> 2" using w by linarith
  have pr: "\<bar>real_of_int p\<bar> \<le> 255" using p by linarith
  have "\<bar>q\<bar> = \<bar>real_of_int p\<bar> * \<bar>w'\<bar>" by (simp add: q_def abs_mult)
  also have "\<dots> \<le> 255 * 2" by (rule mult_mono [OF pr w'b]) simp_all
  finally have qb: "\<bar>q\<bar> \<le> 510" by simp
  have "\<bar>rnd64 q - q\<bar> \<le> \<bar>q\<bar> / 2 ^ 53" by (rule rnd64_error)
  also have "\<dots> \<le> 510 / 2 ^ 53" using qb by (simp add: divide_right_mono)
  finally have e2: "\<bar>rnd64 q - q\<bar> \<le> 510 / 2 ^ 53" .
  have "\<bar>q - real_of_int p * w\<bar> = \<bar>real_of_int p\<bar> * \<bar>w' - w\<bar>"
    by (simp add: q_def abs_mult [symmetric] algebra_simps)
  also have "\<dots> \<le> 255 * (1 / 2 ^ 53)" by (rule mult_mono [OF pr e1]) simp_all
  finally have e3: "\<bar>q - real_of_int p * w\<bar> \<le> 255 / 2 ^ 53" by simp
  have "\<bar>rnd64 q - real_of_int p * w\<bar> \<le> \<bar>rnd64 q - q\<bar> + \<bar>q - real_of_int p * w\<bar>"
    by linarith
  also have "\<dots> \<le> 510 / 2 ^ 53 + 255 / 2 ^ 53" using e2 e3 by linarith
  also have "\<dots> \<le> 2 ^ 10 / 2 ^ 53" by simp
  finally have a: "\<bar>rnd64 q - real_of_int p * w\<bar> \<le> 2 ^ 10 / 2 ^ 53" .
  have "\<bar>rnd64 q\<bar> \<le> \<bar>rnd64 q - q\<bar> + \<bar>q\<bar>" by linarith
  also have "\<dots> \<le> 510 / 2 ^ 53 + 510" using e2 qb by linarith
  also have "\<dots> \<le> 2 ^ 10" by simp
  finally have b: "\<bar>rnd64 q\<bar> \<le> 2 ^ 10" .
  have "js_mul (real_of_int p) (js_div c t) = rnd64 q"
    by (simp add: js_mul_def js_div_def q_def w'_def w_def)
  moreover have "real_of_int p * c / t = real_of_int p * w" by (simp add: w_def)
  ultimately show ?thesis using a b by simp
qed

lemma js_sum_upt_error:
  assumes "\<forall>k<n. \<bar>f k - g k\<bar> \<le> 2 ^ 10 / 2 ^ 53 \<and> \<bar>f k\<bar> \<le> 2 ^ 10" and "n \<le> 4"
  shows "\<bar>foldl js_add 0 (map f [0 ..< n]) - (\<Sum>k<n. g k)\<bar> \<le> real n / 2 ^ 39 \<and>
         \<bar>foldl js_add 0 (map f [0 ..< n])\<bar> \<le> 2 ^ 11 * real n"
  using assms
proof (induction n)
  case 0
  then show ?case by simp
next
  case (Suc n)
  define s where "s = foldl js_add 0 (map f [0 ..< n])"
  define S where "S = (\<Sum>k<n. g k)"
  have ih: "\<bar>s - S\<bar> \<le> real n / 2 ^ 39" "\<bar>s\<bar> \<le> 2 ^ 11 * real n"
    using Suc by (simp_all add: s_def S_def)
  have fn: "\<bar>f n - g n\<bar> \<le> 2 ^ 10 / 2 ^ 53" "\<bar>f n\<bar> \<le> 2 ^ 10" using Suc.prems(1) by simp_all
  have n3: "real n \<le> 3" using Suc.prems(2) by simp
  have sb: "\<bar>s\<bar> \<le> 2 ^ 11 * 3" using ih(2) n3 by simp
  have "\<bar>s + f n\<bar> \<le> \<bar>s\<bar> + \<bar>f n\<bar>" by linarith
  then have xb: "\<bar>s + f n\<bar> \<le> 2 ^ 13" using sb fn(2) by simp
  have "\<bar>rnd64 (s + f n) - (s + f n)\<bar> \<le> \<bar>s + f n\<bar> / 2 ^ 53" by (rule rnd64_error)
  also have "\<dots> \<le> 2 ^ 13 / 2 ^ 53" using xb by (simp add: divide_right_mono)
  finally have e: "\<bar>rnd64 (s + f n) - (s + f n)\<bar> \<le> 2 ^ 13 / 2 ^ 53" .
  have st: "foldl js_add 0 (map f [0 ..< Suc n]) = rnd64 (s + f n)"
    by (simp add: s_def js_add_def)
  have SS: "(\<Sum>k<Suc n. g k) = S + g n" by (simp add: S_def)
  have "\<bar>rnd64 (s + f n) - (S + g n)\<bar> \<le>
        \<bar>rnd64 (s + f n) - (s + f n)\<bar> + \<bar>s - S\<bar> + \<bar>f n - g n\<bar>" by linarith
  also have "\<dots> \<le> 2 ^ 13 / 2 ^ 53 + real n / 2 ^ 39 + 2 ^ 10 / 2 ^ 53"
    using e ih(1) fn(1) by linarith
  also have "\<dots> \<le> real (Suc n) / 2 ^ 39" by (simp add: field_simps)
  finally have a: "\<bar>rnd64 (s + f n) - (S + g n)\<bar> \<le> real (Suc n) / 2 ^ 39" .
  have "\<bar>rnd64 (s + f n)\<bar> \<le> \<bar>rnd64 (s + f n) - (s + f n)\<bar> + \<bar>s\<bar> + \<bar>f n\<bar>" by linarith
  also have "\<dots> \<le> 2 ^ 13 / 2 ^ 53 + 2 ^ 11 * real n + 2 ^ 10" using e ih(2) fn(2) by linarith
  also have "\<dots> \<le> 2 ^ 11 * real (Suc n)" by (simp add: field_simps)
  finally have b: "\<bar>rnd64 (s + f n)\<bar> \<le> 2 ^ 11 * real (Suc n)" .
  show ?case unfolding st SS using a b by simp
qed

lemma channel_sum_within:
  fixes h :: "RGB \<Rightarrow> int"
  assumes t: "0 < t" and K: "length pal \<le> length cs" "length pal \<le> 4"
    and cs: "\<forall>k<length pal. 0 \<le> cs ! k \<and> cs ! k \<le> t"
    and pal: "\<forall>c \<in> set pal. \<bar>h c\<bar> \<le> 255"
  shows "\<bar>round (js_sum (map (\<lambda>k. js_mul (real_of_int (h (pal ! k))) (js_div (cs ! k) t))
                    [0 ..< length pal])) -
          round (\<Sum>k<length pal. real_of_int (h (pal ! k)) * cs ! k / t)\<bar> \<le> 1"
proof -
  have "\<forall>k<length pal.
      \<bar>js_mul (real_of_int (h (pal ! k))) (js_div (cs ! k) t) - real_of_int (h (pal ! k)) * cs ! k / t\<bar>
        \<le> 2 ^ 10 / 2 ^ 53 \<and>
      \<bar>js_mul (real_of_int (h (pal ! k))) (js_div (cs ! k) t)\<bar> \<le> 2 ^ 10"
  proof (intro allI impI)
    fix k assume k: "k < length pal"
    then have "pal ! k \<in> set pal" by simp
    then have p: "\<bar>h (pal ! k)\<bar> \<le> 255" using pal by blast
    have c: "0 \<le> cs ! k" "cs ! k \<le> t" using cs k by simp_all
    show "\<bar>js_mul (real_of_int (h (pal ! k))) (js_div (cs ! k) t) -
            real_of_int (h (pal ! k)) * cs ! k / t\<bar> \<le> 2 ^ 10 / 2 ^ 53 \<and>
          \<bar>js_mul (real_of_int (h (pal ! k))) (js_div (cs ! k) t)\<bar> \<le> 2 ^ 10"
      by (rule term_error [OF t c p])
  qed
  from js_sum_upt_error [OF this K(2)]
  have "\<bar>js_sum (map (\<lambda>k. js_mul (real_of_int (h (pal ! k))) (js_div (cs ! k) t)) [0 ..< length pal]) -
         (\<Sum>k<length pal. real_of_int (h (pal ! k)) * cs ! k / t)\<bar> \<le> real (length pal) / 2 ^ 39"
    by (simp add: js_sum_def)
  also have "\<dots> \<le> 4 / 2 ^ 39" using K(2) by (simp add: divide_right_mono)
  also have "\<dots> < 1" by simp
  finally show ?thesis by (rule round_close)
qed

lemma mixSRGB_within_one:
  assumes t: "0 < t" and K: "length pal \<le> length cs" "length pal \<le> 4"
    and cs: "\<forall>k<length pal. 0 \<le> cs ! k \<and> cs ! k \<le> t"
    and pal: "\<forall>c \<in> set pal. \<bar>fst c\<bar> \<le> 255 \<and> \<bar>fst (snd c)\<bar> \<le> 255 \<and> \<bar>snd (snd c)\<bar> \<le> 255"
  shows "\<bar>fst (mixSRGB pal cs t) -
           round (\<Sum>k<length pal. real_of_int (fst (pal ! k)) * cs ! k / t)\<bar> \<le> 1 \<and>
         \<bar>fst (snd (mixSRGB pal cs t)) -
           round (\<Sum>k<length pal. real_of_int (fst (snd (pal ! k))) * cs ! k / t)\<bar> \<le> 1 \<and>
         \<bar>snd (snd (mixSRGB pal cs t)) -
           round (\<Sum>k<length pal. real_of_int (snd (snd (pal ! k))) * cs ! k / t)\<bar> \<le> 1"
proof -
  have m: "min (length cs) (length pal) = length pal" using K(1) by simp
  have t0: "t \<noteq> 0" using t by simp
  have p: "\<forall>c \<in> set pal. \<bar>fst c\<bar> \<le> 255" "\<forall>c \<in> set pal. \<bar>(fst \<circ> snd) c\<bar> \<le> 255"
    "\<forall>c \<in> set pal. \<bar>(snd \<circ> snd) c\<bar> \<le> 255" using pal by simp_all
  show ?thesis
    unfolding mixSRGB_js_sum [OF t0] m fst_conv snd_conv
    using channel_sum_within [OF t K cs p(1)] channel_sum_within [OF t K cs p(2)]
      channel_sum_within [OF t K cs p(3)] by simp
qed

text \<open>
  Claim C3, amended. For a total that is not zero and a palette of \<open>K\<close> colours with at least
  \<open>K\<close> counters, every channel of the mix is the rounding to an integer of the sum that is
  accumulated in binary64, from 0 and in the order of \<open>k\<close>, of the products
  \<open>palette[k].channel * (counts[k] / total)\<close>, where the quotient, the product and every
  partial sum are rounded to binary64. With two colours whose channels are integers below
  \<open>2 ^ 53\<close> in magnitude and the counters of five points of category 0 and five of category
  2, the mix is half of the first colour, rounded. With at most four colours of channels up to
  255 and counters between 0 and the total, every channel of the mix is within 1 of the
  rounded sum of \<open>palette[k].channel * counts[k] / total\<close>.
\<close>

theorem mixSRGB_rounded_binary64_sum:
  assumes "t \<noteq> 0" and "length pal \<le> length cs"
  shows "mixSRGB pal cs t =
     (round (js_sum (map (\<lambda>k. js_mul (real_of_int (fst (pal ! k))) (js_div (cs ! k) t))
                      [0 ..< length pal])),
      round (js_sum (map (\<lambda>k. js_mul (real_of_int (fst (snd (pal ! k)))) (js_div (cs ! k) t))
                      [0 ..< length pal])),
      round (js_sum (map (\<lambda>k. js_mul (real_of_int (snd (snd (pal ! k)))) (js_div (cs ! k) t))
                      [0 ..< length pal]))) \<and>
     (\<bar>r0\<bar> < 2 ^ 53 \<and> \<bar>g0\<bar> < 2 ^ 53 \<and> \<bar>b0\<bar> < 2 ^ 53 \<longrightarrow>
      mixSRGB [(r0, g0, b0), p1] [5, 0, 5, 0] 10 =
        (round (real_of_int r0 * 0.5), round (real_of_int g0 * 0.5), round (real_of_int b0 * 0.5))) \<and>
     (0 < t \<and> length pal \<le> 4 \<and> (\<forall>k<length pal. 0 \<le> cs ! k \<and> cs ! k \<le> t) \<and>
      (\<forall>c \<in> set pal. \<bar>fst c\<bar> \<le> 255 \<and> \<bar>fst (snd c)\<bar> \<le> 255 \<and> \<bar>snd (snd c)\<bar> \<le> 255) \<longrightarrow>
      \<bar>fst (mixSRGB pal cs t) -
         round (\<Sum>k<length pal. real_of_int (fst (pal ! k)) * cs ! k / t)\<bar> \<le> 1 \<and>
      \<bar>fst (snd (mixSRGB pal cs t)) -
         round (\<Sum>k<length pal. real_of_int (fst (snd (pal ! k))) * cs ! k / t)\<bar> \<le> 1 \<and>
      \<bar>snd (snd (mixSRGB pal cs t)) -
         round (\<Sum>k<length pal. real_of_int (snd (snd (pal ! k))) * cs ! k / t)\<bar> \<le> 1)"
proof -
  have m: "min (length cs) (length pal) = length pal" using assms(2) by simp
  obtain r1 g1 b1 where p1: "p1 = (r1, g1, b1)" by (cases p1) auto
  have a: "mixSRGB pal cs t =
     (round (js_sum (map (\<lambda>k. js_mul (real_of_int (fst (pal ! k))) (js_div (cs ! k) t))
                      [0 ..< length pal])),
      round (js_sum (map (\<lambda>k. js_mul (real_of_int (fst (snd (pal ! k)))) (js_div (cs ! k) t))
                      [0 ..< length pal])),
      round (js_sum (map (\<lambda>k. js_mul (real_of_int (snd (snd (pal ! k)))) (js_div (cs ! k) t))
                      [0 ..< length pal])))"
    using mixSRGB_js_sum [OF assms(1), of pal cs] by (simp only: m)
  have b: "\<bar>r0\<bar> < 2 ^ 53 \<and> \<bar>g0\<bar> < 2 ^ 53 \<and> \<bar>b0\<bar> < 2 ^ 53 \<longrightarrow>
      mixSRGB [(r0, g0, b0), p1] [5, 0, 5, 0] 10 =
        (round (real_of_int r0 * 0.5), round (real_of_int g0 * 0.5), round (real_of_int b0 * 0.5))"
    unfolding p1 using mixSRGB_dilute [of r0 g0 b0 r1 g1 b1] by blast
  have c: "0 < t \<and> length pal \<le> 4 \<and> (\<forall>k<length pal. 0 \<le> cs ! k \<and> cs ! k \<le> t) \<and>
      (\<forall>c \<in> set pal. \<bar>fst c\<bar> \<le> 255 \<and> \<bar>fst (snd c)\<bar> \<le> 255 \<and> \<bar>snd (snd c)\<bar> \<le> 255) \<longrightarrow>
      \<bar>fst (mixSRGB pal cs t) -
         round (\<Sum>k<length pal. real_of_int (fst (pal ! k)) * cs ! k / t)\<bar> \<le> 1 \<and>
      \<bar>fst (snd (mixSRGB pal cs t)) -
         round (\<Sum>k<length pal. real_of_int (fst (snd (pal ! k))) * cs ! k / t)\<bar> \<le> 1 \<and>
      \<bar>snd (snd (mixSRGB pal cs t)) -
         round (\<Sum>k<length pal. real_of_int (snd (snd (pal ! k))) * cs ! k / t)\<bar> \<le> 1"
    using mixSRGB_within_one [OF _ assms(2), of t] by blast
  show ?thesis using a b c by (intro conjI)
qed

lemma dilute_extent: "extent_query dilute = Some \<lparr>xmin = 0, xmax = 9, ymin = 0, ymax = 9\<rparr>"
  by (simp add: dilute_def extent_query_def)

lemma dilute_rows:
  "binning_query exact_engine 2 2 (extent_query dilute) dilute =
     [\<lparr>r_ix = 0, r_iy = 0, r_cat = 0, r_n = 5, r_ntot = 10\<rparr>,
      \<lparr>r_ix = 0, r_iy = 0, r_cat = 2, r_n = 5, r_ntot = 10\<rparr>]"
  unfolding dilute_extent by (simp add: dilute_def query_defs)

lemma dilute_aggregates:
  "aggregates exact_engine 2 2 dilute =
     \<lparr>totals = [10, 0, 0, 0], counts = [5, 0, 5, 0, 0, 0, 0, 0, 0, 0, 0, 0, 0, 0, 0, 0], maxTot = 10\<rparr>"
  unfolding aggregates_def dilute_rows by (simp add: accumulate_defs replicate_4 replicate_16)

theorem mixSRGB_rounded_binary64_sum_witness:
  "cell_counts (counts (aggregates exact_engine 2 2 dilute)) 0 = [5, 0, 5, 0] \<and>
   real (unat (totals (aggregates exact_engine 2 2 dilute) ! 0)) = 10 \<and>
   mixSRGB palette2 (cell_counts (counts (aggregates exact_engine 2 2 dilute)) 0)
     (real (unat (totals (aggregates exact_engine 2 2 dilute) ! 0))) = (128, 0, 0) \<and>
   mixSRGB PALETTE [3, 1, 1, 1] 6 =
     (round (js_sum [js_mul 230 (js_div 3 6), js_mul 29 (js_div 1 6), js_mul 69 (js_div 1 6),
                     js_mul 241 (js_div 1 6)]),
      round (js_sum [js_mul 57 (js_div 3 6), js_mul 53 (js_div 1 6), js_mul 123 (js_div 1 6),
                     js_mul 196 (js_div 1 6)]),
      round (js_sum [js_mul 70 (js_div 3 6), js_mul 87 (js_div 1 6), js_mul 157 (js_div 1 6),
                     js_mul 15 (js_div 1 6)])) \<and>
   \<bar>fst (mixSRGB PALETTE [3, 1, 1, 1] 6) -
      round (\<Sum>k<length PALETTE. real_of_int (fst (PALETTE ! k)) * [3, 1, 1, 1] ! k / 6)\<bar> \<le> 1"
proof -
  have c: "cell_counts (counts (aggregates exact_engine 2 2 dilute)) 0 = [5, 0, 5, 0]"
    by (simp add: dilute_aggregates cell_counts_def)
  have t: "real (unat (totals (aggregates exact_engine 2 2 dilute) ! 0)) = 10"
    by (simp add: dilute_aggregates)
  have a: "(10::real) \<noteq> 0" and b: "length palette2 \<le> length [5, 0, 5, 0 :: real]"
    by (simp_all add: palette2_def)
  have x: "mixSRGB palette2 [5, 0, 5, 0] 10 = (128, 0, 0)"
    using mixSRGB_rounded_binary64_sum [OF a b, of 255 0 0 "(0, 255, 0)", THEN conjunct2, THEN conjunct1]
    by (simp add: palette2_def round_def)
  have a': "(6::real) \<noteq> 0" and b': "length PALETTE \<le> length [3, 1, 1, 1 :: real]"
    by (simp_all add: PALETTE_def)
  have y: "mixSRGB PALETTE [3, 1, 1, 1] 6 =
     (round (js_sum [js_mul 230 (js_div 3 6), js_mul 29 (js_div 1 6), js_mul 69 (js_div 1 6),
                     js_mul 241 (js_div 1 6)]),
      round (js_sum [js_mul 57 (js_div 3 6), js_mul 53 (js_div 1 6), js_mul 123 (js_div 1 6),
                     js_mul 196 (js_div 1 6)]),
      round (js_sum [js_mul 70 (js_div 3 6), js_mul 87 (js_div 1 6), js_mul 157 (js_div 1 6),
                     js_mul 15 (js_div 1 6)]))"
    using mixSRGB_rounded_binary64_sum [OF a' b', of 0 0 0 "(0, 0, 0)", THEN conjunct1]
    by (simp add: PALETTE_def upt_4)
  have h: "(0::real) < 6 \<and> length PALETTE \<le> 4 \<and>
      (\<forall>k<length PALETTE. 0 \<le> [3, 1, 1, 1 :: real] ! k \<and> [3, 1, 1, 1 :: real] ! k \<le> 6) \<and>
      (\<forall>c \<in> set PALETTE. \<bar>fst c\<bar> \<le> 255 \<and> \<bar>fst (snd c)\<bar> \<le> 255 \<and> \<bar>snd (snd c)\<bar> \<le> 255)"
    by (auto simp: PALETTE_def nth_Cons')
  have z: "\<bar>fst (mixSRGB PALETTE [3, 1, 1, 1] 6) -
      round (\<Sum>k<length PALETTE. real_of_int (fst (PALETTE ! k)) * [3, 1, 1, 1] ! k / 6)\<bar> \<le> 1"
    using mixSRGB_rounded_binary64_sum [OF a' b', of 0 0 0 "(0, 0, 0)", THEN conjunct2, THEN conjunct2] h
    by blast
  show ?thesis unfolding c t using x y z by (intro conjI) simp_all
qed

section \<open>Bounds of the channels\<close>

lemma round_nonneg: "0 \<le> (x::real) \<Longrightarrow> 0 \<le> round x"
  using round_mono [of 0 x] by simp

lemma foldl_js_add_nonneg:
  assumes "\<forall>x \<in> set xs. 0 \<le> x" and "0 \<le> a"
  shows "0 \<le> foldl js_add a xs"
  using assms
proof (induction xs arbitrary: a)
  case Nil
  then show ?case by simp
next
  case (Cons x xs)
  have "0 \<le> js_add a x" unfolding js_add_def by (rule rnd64_nonneg) (use Cons.prems in simp)
  then show ?case using Cons by simp
qed

lemma mixSRGB_nonneg:
  assumes pal: "\<forall>c \<in> set pal. 0 \<le> fst c \<and> 0 \<le> fst (snd c) \<and> 0 \<le> snd (snd c)"
    and cs: "\<forall>x \<in> set cs. 0 \<le> x"
    and t: "0 < t"
    and m: "mixSRGB pal cs t = (mr, mg, mb)"
  shows "0 \<le> mr \<and> 0 \<le> mg \<and> 0 \<le> mb"
proof -
  have tm: "0 \<le> js_mul (real_of_int (f (pal ! k))) (js_div (cs ! k) t)"
    if "k < min (length cs) (length pal)" and "\<forall>c \<in> set pal. 0 \<le> f c" for k and f :: "RGB \<Rightarrow> int"
  proof -
    have "pal ! k \<in> set pal" "cs ! k \<in> set cs" using that(1) by simp_all
    then have "0 \<le> f (pal ! k)" "0 \<le> cs ! k" using that(2) cs by blast+
    then have "0 \<le> cs ! k / t" "0 \<le> real_of_int (f (pal ! k))" using t by simp_all
    then show ?thesis unfolding js_mul_def js_div_def
      by (intro rnd64_nonneg mult_nonneg_nonneg)
  qed
  have s: "0 \<le> js_sum (map (\<lambda>k. js_mul (real_of_int (f (pal ! k))) (js_div (cs ! k) t))
                           [0 ..< min (length cs) (length pal)])"
    if "\<forall>c \<in> set pal. 0 \<le> f c" for f :: "RGB \<Rightarrow> int"
    unfolding js_sum_def by (rule foldl_js_add_nonneg) (simp_all add: tm that)
  have "t \<noteq> 0" using t by simp
  from mixSRGB_js_sum [OF this, of pal cs] m
  have "mr = round (js_sum (map (\<lambda>k. js_mul (real_of_int (fst (pal ! k))) (js_div (cs ! k) t))
                           [0 ..< min (length cs) (length pal)]))"
       "mg = round (js_sum (map (\<lambda>k. js_mul (real_of_int (fst (snd (pal ! k)))) (js_div (cs ! k) t))
                           [0 ..< min (length cs) (length pal)]))"
       "mb = round (js_sum (map (\<lambda>k. js_mul (real_of_int (snd (snd (pal ! k)))) (js_div (cs ! k) t))
                           [0 ..< min (length cs) (length pal)]))"
    by simp_all
  moreover have "\<forall>c \<in> set pal. 0 \<le> fst c" "\<forall>c \<in> set pal. 0 \<le> (fst \<circ> snd) c"
    "\<forall>c \<in> set pal. 0 \<le> (snd \<circ> snd) c" using pal by simp_all
  ultimately show ?thesis
    using s [of fst] s [of "fst \<circ> snd"] s [of "snd \<circ> snd"] by (simp add: round_nonneg)
qed

lemma shaded_value_range:
  assumes "0 \<le> m"
  shows "0 \<le> min 255 (round (js_mul (real_of_int m) (shade t mx))) \<and>
         min 255 (round (js_mul (real_of_int m) (shade t mx))) \<le> 255"
proof -
  have "0 \<le> real_of_int m * shade t mx" using assms shade_nonneg [of t mx] by simp
  then have "0 \<le> js_mul (real_of_int m) (shade t mx)" unfolding js_mul_def by (rule rnd64_nonneg)
  then have "0 \<le> round (js_mul (real_of_int m) (shade t mx))" by (rule round_nonneg)
  then show ?thesis by simp
qed

lemma cell_counts_nonneg: "\<forall>x \<in> set (cell_counts cs i). 0 \<le> x"
  unfolding cell_counts_def by (auto simp only: set_simps of_nat_0_le_iff)

lemma render_cell_bounds:
  assumes pal: "\<forall>c \<in> set pal. 0 \<le> fst c \<and> 0 \<le> fst (snd c) \<and> 0 \<le> snd (snd c)"
    and r: "render_cell pal s i = Rgb r g b"
  shows "0 \<le> r \<and> r \<le> 255 \<and> 0 \<le> g \<and> g \<le> 255 \<and> 0 \<le> b \<and> b \<le> 255"
proof -
  define t where "t = unat (totals s ! i)"
  have t0: "t \<noteq> 0" using r by (auto simp: render_cell_def Let_def t_def split: if_splits)
  obtain mr mg mb where m: "mixSRGB pal (cell_counts (counts s) i) (real t) = (mr, mg, mb)"
    by (cases "mixSRGB pal (cell_counts (counts s) i) (real t)") auto
  have nn: "0 \<le> mr \<and> 0 \<le> mg \<and> 0 \<le> mb"
    by (rule mixSRGB_nonneg [OF pal cell_counts_nonneg _ m]) (use t0 in simp)
  have "r = min 255 (round (js_mul (real_of_int mr) (shade t (maxTot s))))"
       "g = min 255 (round (js_mul (real_of_int mg) (shade t (maxTot s))))"
       "b = min 255 (round (js_mul (real_of_int mb) (shade t (maxTot s))))"
    using r t0 m by (simp_all add: render_cell_def Let_def t_def [symmetric])
  then show ?thesis
    using nn shaded_value_range [of mr t "maxTot s"] shaded_value_range [of mg t "maxTot s"]
      shaded_value_range [of mb t "maxTot s"] by blast
qed

text \<open>
  Claim C8. With a palette whose channels are not negative, the three channels of every
  entry of the grid that is not \<open>transparent\<close> are integers between 0 and 255.
\<close>

theorem channel_bounds:
  assumes "\<forall>c \<in> set pal. 0 \<le> fst c \<and> 0 \<le> fst (snd c) \<and> 0 \<le> snd (snd c)"
    and "i < W * H"
    and "refresh E W H pal tbl ! i = Rgb r g b"
  shows "0 \<le> r \<and> r \<le> 255 \<and> 0 \<le> g \<and> g \<le> 255 \<and> 0 \<le> b \<and> b \<le> 255"
  using render_cell_bounds [OF assms(1)] assms(3) unfolding refresh_nth [OF assms(2)] by blast

theorem channel_bounds_witness:
  "list_all (\<lambda>c. 0 \<le> fst c \<and> 0 \<le> fst (snd c) \<and> 0 \<le> snd (snd c)) PALETTE \<and>
   refresh exact_engine 2 2 PALETTE scen ! 0 = Rgb 230 57 70 \<and>
   (0::int) \<le> 230 \<and> (230::int) \<le> 255 \<and> (0::int) \<le> 57 \<and> (57::int) \<le> 255 \<and>
   (0::int) \<le> 70 \<and> (70::int) \<le> 255"
proof -
  have a: "\<forall>c \<in> set PALETTE. 0 \<le> fst c \<and> 0 \<le> fst (snd c) \<and> 0 \<le> snd (snd c)"
    by (simp add: PALETTE_def)
  have b: "(0::nat) < 2 * 2" by simp
  from channel_bounds [OF a b scen_cell_0] a scen_cell_0
  show ?thesis by (simp add: list_all_iff)
qed

section \<open>Points on the maximum edge\<close>




lemma grid_key_Some:
  assumes "grid_key W H b = Some k"
  shows "b = (Some (fst k), Some (fst (snd k)), snd (snd k)) \<and>
         0 \<le> fst k \<and> fst k < int W \<and> 0 \<le> fst (snd k) \<and> fst (snd k) < int H"
  using assms by (cases "(W, H, b)" rule: grid_key.cases) (auto split: if_splits)




lemmas render_defs = render_def render_cell_def cell_counts_def mixSRGB_def mix_step_def

lemma scen_refresh:
  "refresh exact_engine 2 2 PALETTE scen = [Rgb 230 57 70, Transparent, Transparent, Transparent]"
proof -
  have s: "shade 2 2 = 1" by (rule shade_full) simp
  show ?thesis
    unfolding refresh_def scen_aggregates by (simp add: render_defs upt_4 PALETTE_def s js_defs)
qed




section \<open>Order of the rows of the table\<close>

lemma filter_key_singleton:
  assumes "distinct zs" and "k \<in> set zs" and "inj_on f (set zs)"
  shows "filter (\<lambda>x. f k = f x) zs = [k]"
proof -
  have "filter (\<lambda>x. f k = f x) zs = filter (\<lambda>x. x = k) zs"
    by (rule filter_cong) (use assms(2,3) in \<open>auto dest: inj_onD\<close>)
  also have "\<dots> = [k]"
    using assms(1,2) by (induction zs) (auto simp: filter_empty_conv)
  finally show ?thesis .
qed

lemma sort_key_mset_eq:
  assumes m: "mset xs = mset ys" and d: "distinct (map f xs)"
  shows "sort_key f xs = sort_key f ys"
proof -
  have dx: "distinct xs" and ix: "inj_on f (set xs)" using d by (simp_all add: distinct_map)
  have sx: "set xs = set ys" using m by (rule mset_eq_setD)
  have dy: "distinct ys" using m dx by (metis mset_eq_imp_distinct_iff)
  show ?thesis
  proof (rule properties_for_sort_key)
    show "mset (sort_key f ys) = mset xs" using m by simp
    show "sorted (map f (sort_key f ys))" by (rule sorted_sort_key)
    show "filter (\<lambda>x. f k = f x) (sort_key f ys) = filter (\<lambda>x. f k = f x) xs"
      if "k \<in> set (sort_key f ys)" for k
    proof -
      have k: "k \<in> set xs" using that sx by simp
      have "filter (\<lambda>x. f k = f x) (sort_key f ys) = [k]"
        by (rule filter_key_singleton) (use dy that ix sx in simp_all)
      moreover have "filter (\<lambda>x. f k = f x) xs = [k]"
        by (rule filter_key_singleton [OF dx k ix])
      ultimately show ?thesis by simp
    qed
  qed
qed

lemma extent_query_mset:
  assumes "mset tbl = mset tbl'"
  shows "extent_query tbl = extent_query tbl'"
proof (cases "tbl = []")
  case True
  then have "tbl' = []" using assms by simp
  then show ?thesis using True by simp
next
  case False
  then have ne: "tbl' \<noteq> []" using assms by auto
  have "set tbl = set tbl'" using assms by (rule mset_eq_setD)
  then show ?thesis by (simp add: extent_query_set [OF False] extent_query_set [OF ne])
qed

lemma map_filter_mset:
  assumes "mset xs = mset ys"
  shows "mset (List.map_filter f xs) = mset (List.map_filter f ys)"
  using assms by (simp add: List.map_filter_def)

lemma binned_mset:
  assumes "mset tbl = mset tbl'"
  shows "mset (binned E W H ext tbl) = mset (binned E W H ext tbl')"
  using assms by (cases ext) (simp_all add: binned_def)

lemma agg_mset:
  assumes "mset bs = mset bs'"
  shows "mset (agg W H bs) = mset (agg W H bs')"
proof -
  define ks where "ks = List.map_filter (grid_key W H) bs"
  define ks' where "ks' = List.map_filter (grid_key W H) bs'"
  have m: "mset ks = mset ks'" unfolding ks_def ks'_def by (rule map_filter_mset [OF assms])
  have c: "count_list ks = count_list ks'"
    by (rule ext) (simp add: count_mset [symmetric] m)
  have "set ks = set ks'" using m by (rule mset_eq_setD)
  then have "mset (remdups ks) = mset (remdups ks')" by (simp add: set_eq_iff_mset_remdups_eq)
  then show ?thesis
    by (simp add: agg_def ks_def [symmetric] ks'_def [symmetric] c)
qed

lemma partition_sum_mset:
  assumes "mset g = mset g'"
  shows "partition_sum g i j = partition_sum g' i j"
proof -
  define P where "P = (\<lambda>a :: (int \<times> int \<times> nat) \<times> nat. fst (fst a) = i \<and> fst (snd (fst a)) = j)"
  have "mset (map snd (filter P g)) = mset (map snd (filter P g'))"
    by (simp only: mset_map mset_filter assms)
  then have "sum_mset (mset (map snd (filter P g))) = sum_mset (mset (map snd (filter P g')))"
    by (rule arg_cong)
  then have "sum_list (map snd (filter P g)) = sum_list (map snd (filter P g'))"
    by (simp only: sum_mset_sum_list)
  then show ?thesis by (simp only: partition_sum_def P_def)
qed

lemma mk_row_mset:
  assumes "mset g = mset g'"
  shows "mk_row g = mk_row g'"
  by (rule ext) (simp add: mk_row_def partition_sum_mset [OF assms] split: prod.splits)

lemma agg_keys_distinct: "distinct (map (order_key \<circ> mk_row g') (agg W H bs))"
proof -
  define ks where "ks = List.map_filter (grid_key W H) bs"
  define h where "h = (\<lambda>k :: int \<times> int \<times> nat. (fst (snd k), fst k, snd (snd k)))"
  have e: "map (order_key \<circ> mk_row g') (agg W H bs) = map h (remdups ks)"
    by (simp add: agg_def ks_def [symmetric] order_key_def mk_row_def h_def split: prod.splits)
  have "inj h"
    unfolding h_def by (rule injI) (auto simp: prod_eq_iff)
  then have "inj_on h (set (remdups ks))" by (rule inj_on_subset) simp
  then have "distinct (map h (remdups ks))" by (simp add: distinct_map)
  then show ?thesis by (simp only: e)
qed

lemma binning_query_mset:
  assumes "mset tbl = mset tbl'"
  shows "binning_query E W H ext tbl = binning_query E W H ext tbl'"
proof -
  define g where "g = agg W H (binned E W H ext tbl)"
  define g' where "g' = agg W H (binned E W H ext tbl')"
  have m: "mset g = mset g'"
    unfolding g_def g'_def by (rule agg_mset [OF binned_mset [OF assms]])
  have f: "mk_row g = mk_row g'" by (rule mk_row_mset [OF m])
  have "sort_key order_key (map (mk_row g') g) = sort_key order_key (map (mk_row g') g')"
  proof (rule sort_key_mset_eq)
    show "mset (map (mk_row g') g) = mset (map (mk_row g') g')" using m by simp
    show "distinct (map order_key (map (mk_row g') g))"
      using agg_keys_distinct [of g' W H "binned E W H ext tbl"] by (simp add: g_def)
  qed
  then show ?thesis
    by (simp add: binning_query_def g_def [symmetric] g'_def [symmetric] f)
qed

text \<open>
  Claim C4. Two tables with the same rows in any order give the same grid: the bounds are a
  minimum and a maximum, the groups are counted, and the rows of the query come out in the
  order of their keys. A refresh is a function of the table, so repeating it over the same
  table gives the same grid again.
\<close>

theorem refresh_permutation_invariant:
  assumes "mset tbl = mset tbl'"
  shows "refresh E W H pal tbl = refresh E W H pal tbl'"
  by (simp add: refresh_def aggregates_def extent_query_mset [OF assms]
      binning_query_mset [OF assms, of E W H "extent_query tbl'"])

theorem refresh_permutation_invariant_witness:
  "mset scen = mset scen_reordered \<and>
   refresh exact_engine 2 2 PALETTE scen_reordered = [Rgb 230 57 70, Transparent, Transparent, Transparent]"
proof -
  have a: "mset scen = mset scen_reordered" by (simp add: scen_def scen_reordered_def)
  from refresh_permutation_invariant [OF a, of exact_engine 2 2 PALETTE] a
  show ?thesis by (simp add: scen_refresh)
qed

section \<open>Categories beyond the palette\<close>

lemma overflow_extent:
  "extent_query overflow_pts = Some \<lparr>xmin = 0, xmax = 32, ymin = 0, ymax = 32\<rparr>"
  by (simp add: overflow_pts_def extent_query_def)

lemma overflow_rows:
  "binning_query exact_engine 32 32 (extent_query overflow_pts) overflow_pts =
     [\<lparr>r_ix = 0, r_iy = 0, r_cat = 4, r_n = 1, r_ntot = 1\<rparr>,
      \<lparr>r_ix = 1, r_iy = 0, r_cat = 1, r_n = 1, r_ntot = 1\<rparr>]"
  unfolding overflow_extent by (simp add: overflow_pts_def query_defs)

lemma overflow_aggregates:
  "aggregates exact_engine 32 32 overflow_pts =
     \<lparr>totals = (replicate 1024 0)[0 := 1, 1 := 1],
       counts = (replicate 4096 0)[4 := 1, 5 := 1], maxTot = 1\<rparr>"
  unfolding aggregates_def overflow_rows by (simp add: accumulate_defs)

text \<open>
  Claim C2, as stated, fails of the loop over the rows. A point of category 4 in cell
  \<open>(0, 0)\<close> is counted at index \<open>0 * 4 + 4\<close> of the counters, which is counter 0 of cell
  \<open>(1, 0)\<close>: that cell, holding one point of category 1, gets the counters \<open>[1, 1, 0, 0]\<close>
  for a total of 1 and the colour \<open>rgb(255, 110, 157)\<close>, not the \<open>rgb(29, 53, 87)\<close> of its
  only point. The table that \<open>loadData\<close> builds holds no such point.
\<close>

theorem overflow_category_corrupts_neighbour:
  "binning_query exact_engine 32 32 (extent_query overflow_pts) overflow_pts =
     [\<lparr>r_ix = 0, r_iy = 0, r_cat = 4, r_n = 1, r_ntot = 1\<rparr>,
      \<lparr>r_ix = 1, r_iy = 0, r_cat = 1, r_n = 1, r_ntot = 1\<rparr>] \<and>
   counts (accumulate_row 32 \<lparr>r_ix = 0, r_iy = 0, r_cat = 4, r_n = 1, r_ntot = 1\<rparr> (accum_init 32 32)) ! 4 = 1 \<and>
   counts (accum_init 32 32) ! 4 = 0 \<and>
   cell_counts (counts (aggregates exact_engine 32 32 overflow_pts)) 1 = [1, 1, 0, 0] \<and>
   unat (totals (aggregates exact_engine 32 32 overflow_pts) ! 1) = 1 \<and>
   GridMap exact_engine overflow_pts ! 1 = Rgb 255 110 157"
proof -
  have i: "(1::nat) < 32 * 32" by simp
  have "shade 1 1 = 1" by (rule shade_full) simp
  then have s: "shade (Suc 0) (Suc 0) = 1" by simp
  have "GridMap exact_engine overflow_pts ! 1 = Rgb 255 110 157"
    unfolding GridMap_def refresh_nth [OF i] overflow_aggregates
    by (simp add: render_cell_def cell_counts_def mixSRGB_def mix_step_def s js_defs PALETTE_def upt_4)
  then show ?thesis
    by (simp add: overflow_rows overflow_aggregates cell_counts_def accumulate_row_def
        accum_init_def u32_add_def)
qed


section \<open>Delegated and in-process aggregation\<close>








lemma accumulate_row_counts:
  "counts (accumulate_row W r s) = u32_add (counts s) (row_idx W r * 4 + int (r_cat r)) (r_n r)"
  by (simp add: accumulate_row_def row_idx_def Let_def)

lemma accumulate_row_totals:
  "totals (accumulate_row W r s) = u32_store (totals s) (row_idx W r) (of_nat (r_ntot r))"
  by (simp add: accumulate_row_def row_idx_def Let_def)

lemma u32_add_nth:
  assumes "y < length a"
  shows "u32_add a j m ! y = a ! y + (if j = int y then of_nat m else 0)"
  using assms by (auto simp: u32_add_def nth_list_update)

lemma u32_store_nth:
  assumes "x < length a"
  shows "u32_store a j v ! x = (if j = int x then v else a ! x)"
  using assms by (auto simp: u32_store_def nth_list_update)

lemma fold_accumulate_counts:
  assumes "y < length (counts s)"
  shows "counts (fold (accumulate_row W) rows s) ! y =
     counts s ! y +
     of_nat (sum_list (map r_n (filter (\<lambda>r. row_idx W r * 4 + int (r_cat r) = int y) rows)))"
  using assms
proof (induction rows arbitrary: s)
  case Nil
  then show ?case by simp
next
  case (Cons r rows)
  have len: "y < length (counts (accumulate_row W r s))"
    using Cons.prems by (simp add: accumulate_row_counts)
  have step: "counts (accumulate_row W r s) ! y =
      counts s ! y + (if row_idx W r * 4 + int (r_cat r) = int y then of_nat (r_n r) else 0)"
    unfolding accumulate_row_counts using Cons.prems by (rule u32_add_nth)
  show ?case
    by (simp add: Cons.IH [OF len] step)
qed

lemma fold_accumulate_totals:
  assumes "x < length (totals s)"
    and "\<forall>r \<in> set rows. row_idx W r = int x \<longrightarrow> r_ntot r = t"
  shows "totals (fold (accumulate_row W) rows s) ! x =
     (if \<exists>r \<in> set rows. row_idx W r = int x then of_nat t else totals s ! x)"
  using assms
proof (induction rows arbitrary: s)
  case Nil
  then show ?case by simp
next
  case (Cons r rows)
  have len: "x < length (totals (accumulate_row W r s))"
    using Cons.prems(1) by (simp add: accumulate_row_totals)
  have rest: "\<forall>r \<in> set rows. row_idx W r = int x \<longrightarrow> r_ntot r = t"
    using Cons.prems(2) by simp
  have step: "totals (accumulate_row W r s) ! x =
      (if row_idx W r = int x then of_nat (r_ntot r) else totals s ! x)"
    unfolding accumulate_row_totals using Cons.prems(1) by (rule u32_store_nth)
  have "r_ntot r = t" if "row_idx W r = int x"
    using Cons.prems(2) that by simp
  then show ?case
    by (auto simp: Cons.IH [OF len rest] step)
qed

lemma count_list_filter:
  "count_list (filter P ks) k = (if P k then count_list ks k else 0)"
  by (induction ks) auto

lemma sum_count_filter_remdups:
  "sum_list (map (count_list ks) (filter P (remdups ks))) = length (filter P ks)"
proof -
  have "sum_list (map (count_list ks) (filter P (remdups ks))) =
        sum (count_list ks) (set (filter P (remdups ks)))"
    by (rule sum_list_distinct_conv_sum_set) simp
  also have "set (filter P (remdups ks)) = set (filter P ks)" by simp
  also have "sum (count_list ks) (set (filter P ks)) =
             sum (count_list (filter P ks)) (set (filter P ks))"
    by (rule sum.cong) (simp_all add: count_list_filter)
  also have "\<dots> = length (filter P ks)"
    by (rule sum_count_set) simp_all
  finally show ?thesis .
qed

lemma sum_list_filter_sort_key:
  "sum_list (map h (filter P (sort_key f xs))) = (sum_list (map h (filter P xs)) :: nat)"
proof -
  have "mset (map h (filter P (sort_key f xs))) = mset (map h (filter P xs))"
    by simp
  then have "sum_mset (mset (map h (filter P (sort_key f xs)))) =
             sum_mset (mset (map h (filter P xs)))"
    by (rule arg_cong)
  then show ?thesis by (simp only: sum_mset_sum_list)
qed

lemma cell_index_inj:
  fixes i j i' j' :: int
  assumes "0 \<le> i" "i < int W" "0 \<le> i'" "i' < int W"
    and "j' * int W + i' = j * int W + i"
  shows "i' = i \<and> j' = j"
proof -
  have w: "0 < int W" using assms(1,2) by linarith
  have "(j' * int W + i') mod int W = i'" "(j * int W + i) mod int W = i"
    using assms(1-4) by simp_all
  then have i: "i' = i" using assms(5) by simp
  then have "j' * int W = j * int W" using assms(5) by simp
  then have "j' = j" using w by simp
  then show ?thesis using i by simp
qed

lemma counter_slot_inj:
  fixes i j i' j' :: int and c c' :: nat
  assumes "0 \<le> i" "i < int W" "0 \<le> i'" "i' < int W" "c < 4" "c' < 4"
    and "(j' * int W + i') * 4 + int c' = (j * int W + i) * 4 + int c"
  shows "i' = i \<and> j' = j \<and> c' = c"
proof -
  define A where "A = j' * int W + i'"
  define B where "B = j * int W + i"
  have "A * 4 + int c' = B * 4 + int c" using assms(7) by (simp add: A_def B_def)
  then have ab: "A = B" and c: "c' = c" using assms(5,6) by presburger+
  have "j' * int W + i' = j * int W + i" using ab by (simp only: A_def B_def)
  then have "i' = i \<and> j' = j" by (rule cell_index_inj [OF assms(1-4)])
  then show ?thesis using c by simp
qed

lemma set_map_filter: "set (List.map_filter f xs) = {y. \<exists>x \<in> set xs. f x = Some y}"
  by (induction xs) (auto simp: List.map_filter_simps split: option.splits)

lemma agg_keys_in_grid:
  assumes "k \<in> set (agg_keys E W H ext tbl)"
  shows "0 \<le> fst k \<and> fst k < int W \<and> 0 \<le> fst (snd k) \<and> fst (snd k) < int H"
  using assms grid_key_Some [of W H _ k] by (auto simp: set_map_filter)

lemma agg_keys_cat:
  assumes "k \<in> set (agg_keys E W H ext tbl)"
  shows "snd (snd k) \<in> cat_id ` set tbl"
proof -
  from assms obtain b where b: "b \<in> set (binned E W H ext tbl)" "grid_key W H b = Some k"
    by (auto simp: set_map_filter)
  then have "snd (snd b) \<in> cat_id ` set tbl"
    by (cases ext) (auto simp: binned_def bin_point_def)
  moreover have "snd (snd b) = snd (snd k)" using grid_key_Some [OF b(2)] by simp
  ultimately show ?thesis by simp
qed





lemma length_filter_map_filter:
  "length (filter Q (List.map_filter f xs)) =
     length (filter (\<lambda>x. case f x of None \<Rightarrow> False | Some y \<Rightarrow> Q y) xs)"
  by (induction xs) (simp_all add: List.map_filter_simps split: option.splits)



lemma partition_sum_agg:
  "partition_sum (agg W H bs) i j =
     length (filter (\<lambda>k. fst k = i \<and> fst (snd k) = j) (List.map_filter (grid_key W H) bs))"
proof -
  define ks where "ks = List.map_filter (grid_key W H) bs"
  have "partition_sum (agg W H bs) i j =
        sum_list (map (count_list ks) (filter (\<lambda>k. fst k = i \<and> fst (snd k) = j) (remdups ks)))"
    by (simp add: partition_sum_def agg_def ks_def [symmetric] filter_map comp_def)
  then show ?thesis by (simp only: sum_count_filter_remdups ks_def)
qed

lemma binning_query_rows:
  "binning_query E W H ext tbl =
     sort_key order_key
       (map (\<lambda>k. \<lparr>r_ix = fst k, r_iy = fst (snd k), r_cat = snd (snd k),
                   r_n = count_list (agg_keys E W H ext tbl) k,
                   r_ntot = length (filter (\<lambda>k'. fst k' = fst k \<and> fst (snd k') = fst (snd k))
                                     (agg_keys E W H ext tbl))\<rparr>)
            (remdups (agg_keys E W H ext tbl)))"
proof -
  have "map (mk_row (agg W H (binned E W H ext tbl))) (agg W H (binned E W H ext tbl)) =
        map (\<lambda>k. \<lparr>r_ix = fst k, r_iy = fst (snd k), r_cat = snd (snd k),
                   r_n = count_list (agg_keys E W H ext tbl) k,
                   r_ntot = partition_sum (agg W H (binned E W H ext tbl)) (fst k) (fst (snd k))\<rparr>)
            (remdups (agg_keys E W H ext tbl))"
    by (simp add: agg_def [of W H "binned E W H ext tbl"] Let_def mk_row_def split: prod.splits)
  then show ?thesis
    by (simp add: binning_query_def partition_sum_agg)
qed

lemma cell_index_bound:
  fixes i j :: int
  assumes "0 \<le> i" "i < int W" "0 \<le> j" "j < int H"
  shows "0 \<le> j * int W + i \<and> nat (j * int W + i) < W * H"
proof -
  have "j * int W \<le> (int H - 1) * int W"
    using assms by (intro mult_right_mono) simp_all
  then have "j * int W + i < int H * int W"
    using assms(2) by (simp add: algebra_simps)
  moreover have "0 \<le> j * int W" using assms(3) by simp
  ultimately have "0 \<le> j * int W + i" "j * int W + i < int (W * H)"
    using assms(1) by (simp_all add: mult.commute)
  then show ?thesis by linarith
qed

lemma accumulate_total_closed:
  fixes i j :: int
  assumes g: "0 \<le> i" "i < int W" "0 \<le> j" "j < int H"
  shows "totals (accumulate W H (binning_query E W H ext tbl)) ! nat (j * int W + i) =
         of_nat (length (filter (\<lambda>k. fst k = i \<and> fst (snd k) = j) (agg_keys E W H ext tbl)))"
proof -
  define ks where "ks = agg_keys E W H ext tbl"
  define t where "t = length (filter (\<lambda>k. fst k = i \<and> fst (snd k) = j) ks)"
  define rowk where "rowk = (\<lambda>k :: int \<times> int \<times> nat.
     \<lparr>r_ix = fst k, r_iy = fst (snd k), r_cat = snd (snd k), r_n = count_list ks k,
      r_ntot = length (filter (\<lambda>k'. fst k' = fst k \<and> fst (snd k') = fst (snd k)) ks)\<rparr>)"
  define x where "x = nat (j * int W + i)"
  have rows: "binning_query E W H ext tbl = sort_key order_key (map rowk (remdups ks))"
    unfolding rowk_def ks_def by (rule binning_query_rows)
  have x: "x < W * H" and ix: "int x = j * int W + i"
    using cell_index_bound [OF g] by (simp_all add: x_def)
  have cell: "fst k = i \<and> fst (snd k) = j"
    if "k \<in> set ks" and "row_idx W (rowk k) = int x" for k
  proof -
    have "0 \<le> fst k \<and> fst k < int W"
      using agg_keys_in_grid [of k W H E ext tbl] that(1) by (simp add: ks_def)
    moreover have "fst (snd k) * int W + fst k = j * int W + i"
      using that(2) by (simp add: row_idx_def rowk_def ix)
    ultimately show ?thesis using cell_index_inj [of i W "fst k" "fst (snd k)" j] g by simp
  qed
  have same: "\<forall>r \<in> set (binning_query E W H ext tbl). row_idx W r = int x \<longrightarrow> r_ntot r = t"
  proof (intro ballI impI)
    fix r assume "r \<in> set (binning_query E W H ext tbl)" and rx: "row_idx W r = int x"
    then obtain k where k: "k \<in> set ks" "r = rowk k" by (auto simp: rows)
    have "fst k = i \<and> fst (snd k) = j" using cell [OF k(1)] rx k(2) by simp
    then show "r_ntot r = t" by (simp add: k(2) rowk_def t_def)
  qed
  have ex: "(\<exists>r \<in> set (binning_query E W H ext tbl). row_idx W r = int x) \<or> t = 0"
  proof (cases "\<exists>k \<in> set ks. fst k = i \<and> fst (snd k) = j")
    case True
    then obtain k where k: "k \<in> set ks" "fst k = i" "fst (snd k) = j" by blast
    have "rowk k \<in> set (binning_query E W H ext tbl)" using k(1) by (simp add: rows)
    moreover have "row_idx W (rowk k) = int x" by (simp add: row_idx_def rowk_def k ix)
    ultimately show ?thesis by blast
  next
    case False
    then have "filter (\<lambda>k. fst k = i \<and> fst (snd k) = j) ks = []"
      by (simp add: filter_empty_conv)
    then show ?thesis by (simp add: t_def)
  qed
  have len: "x < length (totals (accum_init W H))" using x by (simp add: accum_init_def)
  have "totals (accumulate W H (binning_query E W H ext tbl)) ! x =
     (if \<exists>r \<in> set (binning_query E W H ext tbl). row_idx W r = int x then of_nat t
      else totals (accum_init W H) ! x)"
    unfolding accumulate_def using len same by (rule fold_accumulate_totals)
  also have "\<dots> = of_nat t"
    using ex x by (auto simp: accum_init_def)
  finally show ?thesis by (simp only: x_def t_def ks_def)
qed

lemma accumulate_counts_closed:
  fixes i j :: int
  assumes g: "0 \<le> i" "i < int W" "0 \<le> j" "j < int H" and c: "c < 4"
    and cats: "\<forall>k \<in> set (agg_keys E W H ext tbl). snd (snd k) < 4"
  shows "counts (accumulate W H (binning_query E W H ext tbl)) ! (nat (j * int W + i) * 4 + c) =
         of_nat (count_list (agg_keys E W H ext tbl) (i, j, c))"
proof -
  define ks where "ks = agg_keys E W H ext tbl"
  define rowk where "rowk = (\<lambda>k :: int \<times> int \<times> nat.
     \<lparr>r_ix = fst k, r_iy = fst (snd k), r_cat = snd (snd k), r_n = count_list ks k,
      r_ntot = length (filter (\<lambda>k'. fst k' = fst k \<and> fst (snd k') = fst (snd k)) ks)\<rparr>)"
  define y where "y = nat (j * int W + i) * 4 + c"
  define P where "P = (\<lambda>r. row_idx W r * 4 + int (r_cat r) = int y)"
  have rows: "binning_query E W H ext tbl = sort_key order_key (map rowk (remdups ks))"
    unfolding rowk_def ks_def by (rule binning_query_rows)
  have y: "y < W * H * 4" and iy: "int y = (j * int W + i) * 4 + int c"
    using cell_index_bound [OF g] c by (simp_all add: y_def)
  have slot: "P (rowk k) \<longleftrightarrow> k = (i, j, c)" if "k \<in> set ks" for k
  proof
    assume "P (rowk k)"
    then have "(fst (snd k) * int W + fst k) * 4 + int (snd (snd k)) = (j * int W + i) * 4 + int c"
      by (simp add: P_def row_idx_def rowk_def iy)
    moreover have "0 \<le> fst k \<and> fst k < int W"
      using agg_keys_in_grid [of k W H E ext tbl] that by (simp add: ks_def)
    moreover have "snd (snd k) < 4" using cats that by (simp add: ks_def)
    ultimately have "fst k = i \<and> fst (snd k) = j \<and> snd (snd k) = c"
      using counter_slot_inj [of i W "fst k" c "snd (snd k)" "fst (snd k)" j] g c by simp
    then show "k = (i, j, c)" by (simp add: prod_eq_iff)
  next
    assume "k = (i, j, c)"
    then show "P (rowk k)" by (simp add: P_def row_idx_def rowk_def iy)
  qed
  have "sum_list (map r_n (filter P (binning_query E W H ext tbl))) =
        sum_list (map r_n (filter P (map rowk (remdups ks))))"
    unfolding rows by (rule sum_list_filter_sort_key)
  also have "\<dots> = sum_list (map (count_list ks) (filter (P \<circ> rowk) (remdups ks)))"
    by (simp add: filter_map comp_def rowk_def)
  also have "filter (P \<circ> rowk) (remdups ks) = filter (\<lambda>k. k = (i, j, c)) (remdups ks)"
    by (rule filter_cong) (simp_all add: slot)
  also have "sum_list (map (count_list ks) (filter (\<lambda>k. k = (i, j, c)) (remdups ks))) =
             length (filter (\<lambda>k. k = (i, j, c)) ks)"
    by (rule sum_count_filter_remdups)
  also have "\<dots> = count_list ks (i, j, c)"
    unfolding count_list_eq_length_filter
    by (rule arg_cong [where f = length], rule filter_cong) auto
  finally have s: "sum_list (map r_n (filter P (binning_query E W H ext tbl))) =
                   count_list ks (i, j, c)" .
  have len: "y < length (counts (accum_init W H))" using y by (simp add: accum_init_def)
  have "counts (accumulate W H (binning_query E W H ext tbl)) ! y =
     counts (accum_init W H) ! y +
     of_nat (sum_list (map r_n (filter P (binning_query E W H ext tbl))))"
    unfolding accumulate_def P_def using len by (rule fold_accumulate_counts)
  then show ?thesis
    using y by (simp add: s accum_init_def y_def [symmetric] ks_def [symmetric])
qed









section \<open>The four categories of the table\<close>

lemma makeFakeArrowTable_categories:
  assumes "makeFakeArrowTable xs ys N K = Some tbl"
  shows "\<forall>p \<in> set tbl. cat_id p < 4"
  using assms by (auto simp: makeFakeArrowTable_def list_all_iff split: if_splits)

lemma makeFakeArrowTable_length:
  assumes "makeFakeArrowTable xs ys N K = Some tbl"
  shows "length tbl = N"
  using assms by (auto simp: makeFakeArrowTable_def split: if_splits)

lemma loadData_Some:
  "loadData xs ys =
     Some (map (\<lambda>i. \<lparr>umap_x = xs i, umap_y = ys i, cat_id = i mod 4\<rparr>) [0 ..< 200000])"
  by (simp add: loadData_def makeFakeArrowTable_def list_all_iff)

lemma loadData_table:
  "\<exists>tbl. loadData xs ys = Some tbl \<and> list_all (\<lambda>p. cat_id p < 4) tbl \<and> length tbl < 2 ^ 32"
proof -
  obtain tbl where t: "loadData xs ys = Some tbl" using loadData_Some by blast
  then have m: "makeFakeArrowTable xs ys 200000 4 = Some tbl" by (simp add: loadData_def)
  have "list_all (\<lambda>p. cat_id p < 4) tbl"
    using makeFakeArrowTable_categories [OF m] by (simp add: list_all_iff)
  moreover have "length tbl < 2 ^ 32" using makeFakeArrowTable_length [OF m] by simp
  ultimately show ?thesis using t by blast
qed

lemma agg_keys_point_key:
  "agg_keys E W H ext tbl = List.map_filter (point_key E W H ext) tbl"
proof (cases ext)
  case None
  show ?thesis
    unfolding None
    by (induction tbl) (simp_all add: binned_def point_key_def List.map_filter_simps)
next
  case (Some e)
  show ?thesis
    unfolding Some
    by (induction tbl) (auto simp: binned_def point_key_def List.map_filter_simps split: option.splits)
qed

lemma count_list_map_filter:
  "count_list (List.map_filter f xs) k = length (filter (\<lambda>x. f x = Some k) xs)"
  by (induction xs) (auto simp: List.map_filter_simps split: option.splits)

text \<open>
  For every engine and whatever the categories are, the total that the source holds for a
  cell of the grid is, modulo \<open>2^32\<close>, the number of the rows of the table that the query
  counts in the cell.
\<close>

lemma aggregates_total_points:
  fixes i j :: int
  assumes "0 \<le> i" and "i < int W" and "0 \<le> j" and "j < int H"
  shows "totals (aggregates E W H tbl) ! nat (j * int W + i) =
           of_nat (length (filter (\<lambda>p. case point_key E W H (extent_query tbl) p of
                                          None \<Rightarrow> False
                                        | Some k \<Rightarrow> fst k = i \<and> fst (snd k) = j) tbl))"
  unfolding aggregates_def accumulate_total_closed [OF assms]
  by (simp only: agg_keys_point_key length_filter_map_filter)

text \<open>
  Claim C2, amended. The loop over the rows does not test the category: a row adds its count
  to the counter at \<open>(iy * W + ix) * 4 + cat_id\<close> and to no other, whatever the category is.
  Every category of the table that \<open>loadData\<close> builds is below 4. For a table whose
  categories are all below 4, and modulo \<open>2^32\<close>, the total of a cell of the grid is the
  number of the rows of the table that the query counts in the cell, and its counter of
  category \<open>c\<close> is the number of those of category \<open>c\<close>: a point changes the total of its own
  cell and the counter of its own category in that cell.
\<close>

theorem counters_of_four_categories:
  fixes i j :: int
  assumes "0 \<le> i" and "i < int W" and "0 \<le> j" and "j < int H" and "c < 4"
    and "\<forall>p \<in> set tbl. cat_id p < 4"
    and "y < length (counts s)"
  shows "totals (aggregates E W H tbl) ! nat (j * int W + i) =
           of_nat (length (filter (\<lambda>p. case point_key E W H (extent_query tbl) p of
                                          None \<Rightarrow> False
                                        | Some k \<Rightarrow> fst k = i \<and> fst (snd k) = j) tbl)) \<and>
         counts (aggregates E W H tbl) ! (nat (j * int W + i) * 4 + c) =
           of_nat (length (filter (\<lambda>p. point_key E W H (extent_query tbl) p = Some (i, j, c)) tbl)) \<and>
         counts (accumulate_row W r s) ! y =
           counts s ! y +
           (if (r_iy r * int W + r_ix r) * 4 + int (r_cat r) = int y then of_nat (r_n r) else 0) \<and>
         (\<exists>tbl'. loadData xs ys = Some tbl' \<and> list_all (\<lambda>p. cat_id p < 4) tbl')"
proof -
  have k4: "\<forall>k \<in> set (agg_keys E W H (extent_query tbl) tbl). snd (snd k) < 4"
  proof (intro ballI)
    fix k assume "k \<in> set (agg_keys E W H (extent_query tbl) tbl)"
    then have "snd (snd k) \<in> cat_id ` set tbl" by (rule agg_keys_cat)
    then show "snd (snd k) < 4" using assms(6) by auto
  qed
  have t: "totals (aggregates E W H tbl) ! nat (j * int W + i) =
           of_nat (length (filter (\<lambda>p. case point_key E W H (extent_query tbl) p of
                                          None \<Rightarrow> False
                                        | Some k \<Rightarrow> fst k = i \<and> fst (snd k) = j) tbl))"
    by (rule aggregates_total_points [OF assms(1-4)])
  have n: "counts (aggregates E W H tbl) ! (nat (j * int W + i) * 4 + c) =
           of_nat (length (filter (\<lambda>p. point_key E W H (extent_query tbl) p = Some (i, j, c)) tbl))"
    unfolding aggregates_def accumulate_counts_closed [OF assms(1-5) k4]
    by (simp only: agg_keys_point_key count_list_map_filter)
  have r: "counts (accumulate_row W r s) ! y =
           counts s ! y +
           (if (r_iy r * int W + r_ix r) * 4 + int (r_cat r) = int y then of_nat (r_n r) else 0)"
    unfolding accumulate_row_counts row_idx_def using assms(7) by (rule u32_add_nth)
  have l: "\<exists>tbl'. loadData xs ys = Some tbl' \<and> list_all (\<lambda>p. cat_id p < 4) tbl'"
    using loadData_table [of xs ys] by blast
  show ?thesis using t n r l by blast
qed

theorem counters_of_four_categories_witness:
  "list_all (\<lambda>p. cat_id p < 4) scen \<and>
   totals (aggregates exact_engine 2 2 scen) ! 0 = 2 \<and>
   counts (aggregates exact_engine 2 2 scen) ! 0 = 2 \<and>
   length (filter (\<lambda>p. point_key exact_engine 2 2 (extent_query scen) p = Some (0, 0, 0)) scen) = 2 \<and>
   counts (accum_init 2 2) ! 4 = 0 \<and>
   counts (accumulate_row 2 \<lparr>r_ix = 0, r_iy = 0, r_cat = 4, r_n = 1, r_ntot = 1\<rparr> (accum_init 2 2)) ! 4 = 1"
proof -
  have c: "\<forall>p \<in> set scen. cat_id p < 4" by (simp add: scen_def)
  have g: "(0::int) \<le> 0" "(0::int) < int 2" and d: "(0::nat) < 4" by simp_all
  have y: "4 < length (counts (accum_init 2 2))" by (simp add: accum_init_def)
  have z: "counts (accum_init 2 2) ! 4 = 0" by (simp add: accum_init_def replicate_16)
  have k: "length (filter (\<lambda>p. point_key exact_engine 2 2 (extent_query scen) p = Some (0, 0, 0)) scen) = 2"
    unfolding scen_extent
    by (simp add: scen_def point_key_def in_extent_def bin_point_def bin_index_def nullif_zero_def
        exact_engine_def)
  from counters_of_four_categories [OF g g d c y, of exact_engine
      "\<lparr>r_ix = 0, r_iy = 0, r_cat = 4, r_n = 1, r_ntot = 1\<rparr>"]
  have "counts (aggregates exact_engine 2 2 scen) ! 0 = 2"
    and "counts (accumulate_row 2 \<lparr>r_ix = 0, r_iy = 0, r_cat = 4, r_n = 1, r_ntot = 1\<rparr>
           (accum_init 2 2)) ! 4 = 1"
    by (simp_all add: k z)
  moreover have "totals (aggregates exact_engine 2 2 scen) ! 0 = 2" by (simp add: scen_aggregates)
  ultimately show ?thesis using c k z by (simp add: list_all_iff)
qed

section \<open>Equality of the two aggregations\<close>




end
